theory Spec2Isabelle
  imports Main "HOL-Library.Code_Target_Nat"
begin

section \<open>Strings, as JavaScript has them\<close>

text \<open>
  A JavaScript string is a sequence of UTF-16 code units; \<open>length\<close>, \<open>slice\<close> and
  \<open>indexOf\<close> count code units. The code appends the one-unit ellipsis U+2026, so a string
  is a list of code-unit values. \<open>str\<close> writes an ASCII literal.
\<close>

type_synonym jstring = "nat list"

definition str :: "string \<Rightarrow> jstring" where
  "str s = map of_char s"

definition ellipsis :: nat where
  "ellipsis = 8230"

definition LF :: nat where
  "LF = 10"

definition CR :: nat where
  "CR = 13"

text \<open>The set \<open>\s\<close> of a regular expression, which is also what \<open>trim()\<close> strips:
  WhiteSpace and LineTerminator of ECMAScript.\<close>

definition isWhiteSpace :: "nat \<Rightarrow> bool" where
  "isWhiteSpace c =
     (c = 9 \<or> c = 10 \<or> c = 11 \<or> c = 12 \<or> c = 13 \<or> c = 32 \<or> c = 160 \<or> c = 5760
      \<or> (8192 \<le> c \<and> c \<le> 8202) \<or> c = 8232 \<or> c = 8233 \<or> c = 8239 \<or> c = 8287
      \<or> c = 12288 \<or> c = 65279)"

definition isDigit :: "nat \<Rightarrow> bool" where
  "isDigit c = (48 \<le> c \<and> c \<le> 57)"

text \<open>\<open>\w\<close>: ASCII letters, digits and the underscore.\<close>

definition isWordChar :: "nat \<Rightarrow> bool" where
  "isWordChar c = ((65 \<le> c \<and> c \<le> 90) \<or> (97 \<le> c \<and> c \<le> 122) \<or> isDigit c \<or> c = 95)"

definition trim :: "jstring \<Rightarrow> jstring" where
  "trim s = rev (dropWhile isWhiteSpace (rev (dropWhile isWhiteSpace s)))"

definition startsWith :: "jstring \<Rightarrow> jstring \<Rightarrow> bool" where
  "startsWith s p = (take (length p) s = p)"

text \<open>How a case-insensitive regular expression (flag \<open>i\<close>, no flag \<open>u\<close>) compares an
  input unit with an ASCII letter of the pattern: a unit outside ASCII never folds to an
  ASCII one.\<close>

definition asciiLower :: "nat \<Rightarrow> nat" where
  "asciiLower c = (if 65 \<le> c \<and> c \<le> 90 then c + 32 else c)"

definition startsWithIgnoreCase :: "jstring \<Rightarrow> jstring \<Rightarrow> bool" where
  "startsWithIgnoreCase s p = (map asciiLower (take (length p) s) = map asciiLower p)"

text \<open>\<open>s.split(sep)\<close> for a one-unit separator: never the empty list.\<close>

fun splitOn :: "nat \<Rightarrow> jstring \<Rightarrow> jstring list" where
  "splitOn sep [] = [[]]"
| "splitOn sep (c # cs) =
     (if c = sep then [] # splitOn sep cs
      else (case splitOn sep cs of [] \<Rightarrow> [[c]] | l # ls \<Rightarrow> (c # l) # ls))"

fun joinWith :: "jstring \<Rightarrow> jstring list \<Rightarrow> jstring" where
  "joinWith sep [] = []"
| "joinWith sep [x] = x"
| "joinWith sep (x # y # zs) = x @ sep @ joinWith sep (y # zs)"

text \<open>\<open>s.replace(/\r\n/g, "\n")\<close>\<close>

fun replaceCrLf :: "jstring \<Rightarrow> jstring" where
  "replaceCrLf [] = []"
| "replaceCrLf [c] = [c]"
| "replaceCrLf (c # d # cs) =
     (if c = CR \<and> d = LF then LF # replaceCrLf cs else c # replaceCrLf (d # cs))"

text \<open>\<open>s.replace(/\r/g, "\n")\<close>\<close>

definition replaceCr :: "jstring \<Rightarrow> jstring" where
  "replaceCr s = map (\<lambda>c. if c = CR then LF else c) s"

text \<open>\<open>s.replace(/[ \t]+\n/g, "\n")\<close>: a run of spaces and tabs is dropped when a line feed
  follows it. The first argument holds the run read so far.\<close>

fun dropBlanksBeforeLf :: "jstring \<Rightarrow> jstring \<Rightarrow> jstring" where
  "dropBlanksBeforeLf run [] = run"
| "dropBlanksBeforeLf run (c # cs) =
     (if c = 32 \<or> c = 9 then dropBlanksBeforeLf (run @ [c]) cs
      else if c = LF then LF # dropBlanksBeforeLf [] cs
      else run @ c # dropBlanksBeforeLf [] cs)"

text \<open>\<open>s.replace(/\n{3,}/g, "\n\n")\<close>: a run of three or more line feeds becomes two.
  The first argument counts the line feeds of the run read so far.\<close>

fun collapseLfRuns :: "nat \<Rightarrow> jstring \<Rightarrow> jstring" where
  "collapseLfRuns n [] = replicate (min n 2) LF"
| "collapseLfRuns n (c # cs) =
     (if c = LF then collapseLfRuns (Suc n) cs
      else replicate (min n 2) LF @ c # collapseLfRuns 0 cs)"

text \<open>\<open>s.replace(/\s+/g, " ")\<close>: the flag says that the previous unit was white space.\<close>

fun collapseWhiteSpace :: "bool \<Rightarrow> jstring \<Rightarrow> jstring" where
  "collapseWhiteSpace inRun [] = []"
| "collapseWhiteSpace inRun (c # cs) =
     (if isWhiteSpace c then (if inRun then collapseWhiteSpace True cs
                              else 32 # collapseWhiteSpace True cs)
      else c # collapseWhiteSpace False cs)"

subsection \<open>textUtils\<close>

definition normalizeWhitespace :: "jstring \<Rightarrow> jstring" where
  "normalizeWhitespace s = trim (collapseLfRuns 0 (dropBlanksBeforeLf [] (replaceCrLf s)))"

definition singleLineSnippet :: "jstring \<Rightarrow> nat \<Rightarrow> jstring" where
  "singleLineSnippet s maxLen =
     (let oneLine = trim (collapseWhiteSpace False s)
      in if length oneLine \<le> maxLen then oneLine
         else take (maxLen - 1) oneLine @ [ellipsis])"

text \<open>\<open>Math.floor(maxLen * 0.75)\<close> is \<open>3 * maxLen div 4\<close>; \<open>slice(-n)\<close> keeps the last
  \<open>n\<close> units.\<close>

definition safeDisplayPath :: "jstring \<Rightarrow> nat \<Rightarrow> jstring" where
  "safeDisplayPath fsPath maxLen =
     (if length fsPath \<le> maxLen then fsPath
      else (let tailLen = max 10 (3 * maxLen div 4)
            in ellipsis # drop (length fsPath - tailLen) fsPath))"

text \<open>\<open>/^(?:#+\s*)?My request for Codex:\s*$/i\<close> on one line.\<close>

definition isRequestMarker :: "jstring \<Rightarrow> bool" where
  "isRequestMarker line =
     (let afterHashes = dropWhile (\<lambda>c. c = 35) line;
          body = (if afterHashes = line then line else dropWhile isWhiteSpace afterHashes);
          lit = str ''My request for Codex:''
      in startsWithIgnoreCase body lit \<and> list_all isWhiteSpace (drop (length lit) body))"

definition extractMyRequestForCodex :: "jstring \<Rightarrow> jstring option" where
  "extractMyRequestForCodex txt =
     (let lines = splitOn LF (replaceCr (replaceCrLf txt));
          fromMarker = dropWhile (\<lambda>l. \<not> isRequestMarker (trim l)) lines
      in case fromMarker of
           [] \<Rightarrow> None
         | _ # after \<Rightarrow>
             (let body = trim (joinWith [LF] after) in if body \<noteq> [] then Some body else None))"

text \<open>\<open>/^#+\s*\[#\d+\]\s*User\s*$/i\<close> on one line.\<close>

definition isUserHeading :: "jstring \<Rightarrow> bool" where
  "isUserHeading head =
     (let afterHashes = dropWhile (\<lambda>c. c = 35) head;
          s1 = dropWhile isWhiteSpace afterHashes;
          digits = takeWhile isDigit (drop 2 s1);
          s2 = drop (2 + length digits) s1;
          s3 = dropWhile isWhiteSpace (drop 1 s2)
      in afterHashes \<noteq> head \<and> startsWith s1 (str ''[#'') \<and> digits \<noteq> []
         \<and> startsWith s2 (str '']'') \<and> startsWithIgnoreCase s3 (str ''User'')
         \<and> list_all isWhiteSpace (drop 4 s3))"

definition extractUserContentFromHeading :: "jstring \<Rightarrow> jstring option" where
  "extractUserContentFromHeading txt =
     (let lines = splitOn LF (replaceCr (replaceCrLf txt));
          fromFirst = dropWhile (\<lambda>l. trim l = []) lines
      in case fromFirst of
           [] \<Rightarrow> None
         | first # after \<Rightarrow>
             if \<not> isUserHeading (trim first) then None
             else (let rest = dropWhile (\<lambda>l. trim l = []) (dropWhile (\<lambda>l. trim l \<noteq> []) after);
                       body = trim (joinWith [LF] rest)
                   in if body \<noteq> [] then Some body else None))"

definition extractUserRequestText :: "jstring \<Rightarrow> jstring option" where
  "extractUserRequestText txt =
     (let normalized = trim (replaceCr (replaceCrLf txt))
      in if normalized = [] then None
         else (case extractMyRequestForCodex normalized of
                 Some byMarker \<Rightarrow> Some byMarker
               | None \<Rightarrow> extractUserContentFromHeading normalized))"

section \<open>Log records\<close>

text \<open>
  What \<open>JSON.parse\<close> returns. An object keeps its members in source order; a repeated
  key reads as its last occurrence. Numbers are never inspected by the code below.
\<close>

datatype json =
    JNull
  | JBool bool
  | JNum int
  | JStr jstring
  | JArr "json list"
  | JObj "(jstring \<times> json) list"

text \<open>One line of a log file, as the readers below see it: the empty string (skipped by
  \<open>if (!line) continue\<close>), a line on which \<open>JSON.parse\<close> throws, or a parsed value.\<close>

datatype line = Blank | Malformed | Parsed json

text \<open>\<open>v?.key\<close>, for the keys the code reads (\<open>type\<close>, \<open>payload\<close>, \<open>role\<close>,
  \<open>content\<close>, \<open>text\<close> and the members of the session_meta payload): \<open>None\<close> is
  \<open>undefined\<close>. Only an object has such a member.\<close>

fun getProp :: "json option \<Rightarrow> jstring \<Rightarrow> json option" where
  "getProp (Some (JObj members)) key = map_of (rev members) key"
| "getProp _ key = None"

text \<open>\<open>typeof v.key === "string" ? v.key : undefined\<close>\<close>

definition stringProp :: "json \<Rightarrow> jstring \<Rightarrow> jstring option" where
  "stringProp v key = (case getProp (Some v) key of Some (JStr s) \<Rightarrow> Some s | _ \<Rightarrow> None)"

text \<open>\<open>buildPreviewTextParts\<close> and \<open>extractTextFromContent\<close> are the same function: the
  \<open>text\<close> members of the items of \<open>payload.content\<close> that are strings, concatenated.\<close>

fun contentItemText :: "json \<Rightarrow> jstring" where
  "contentItemText (JObj members) =
     (case getProp (Some (JObj members)) (str ''text'') of Some (JStr s) \<Rightarrow> s | _ \<Rightarrow> [])"
| "contentItemText _ = []"

fun extractTextFromContent :: "json option \<Rightarrow> jstring" where
  "extractTextFromContent (Some (JArr items)) = concat (map contentItemText items)"
| "extractTextFromContent _ = []"

datatype chatRole = User | Assistant

text \<open>The tests every reader of the log makes on a parsed line before it looks at the
  text: \<open>obj?.type === "response_item"\<close>, \<open>obj?.payload?.type === "message"\<close>, and a role
  that is \<open>"user"\<close> or \<open>"assistant"\<close>. The result is the role and the raw text.\<close>

definition messageOf :: "json \<Rightarrow> (chatRole \<times> jstring) option" where
  "messageOf obj =
     (if getProp (Some obj) (str ''type'') \<noteq> Some (JStr (str ''response_item'')) then None
      else let payload = getProp (Some obj) (str ''payload'') in
        if getProp payload (str ''type'') \<noteq> Some (JStr (str ''message'')) then None
        else let r = getProp payload (str ''role'');
                 textRaw = extractTextFromContent (getProp payload (str ''content''))
             in if r = Some (JStr (str ''user'')) then Some (User, textRaw)
                else if r = Some (JStr (str ''assistant'')) then Some (Assistant, textRaw)
                else None)"

section \<open>Paths, files and the host\<close>

text \<open>
  A path is the list of the segments of an absolute, normalised path. \<open>path.relative\<close>
  drops the common leading segments and climbs with \<open>..\<close> out of what is left of the
  first path; \<open>rel.split(path.sep)\<close> of the empty relative path is one empty part.
\<close>

type_synonym path = "jstring list"

fun relative :: "path \<Rightarrow> path \<Rightarrow> jstring list" where
  "relative (a # as) (b # bs) =
     (if a = b then relative as bs else replicate (Suc (length as)) (str ''..'') @ b # bs)"
| "relative as bs = replicate (length as) (str ''..'') @ bs"

definition relativeParts :: "path \<Rightarrow> path \<Rightarrow> jstring list" where
  "relativeParts sessionsRoot fsPath =
     (let rel = relative sessionsRoot fsPath in if rel = [] then [[]] else rel)"

definition basename :: "path \<Rightarrow> jstring" where
  "basename p = (if p = [] then [] else last p)"

record fileStat =
  mtimeMs :: int
  fileSize :: nat

text \<open>What is at a path: nothing that \<open>stat\<close> finds, a file that \<open>stat\<close> finds and
  \<open>open\<close> refuses, or a file with its lines.\<close>

datatype fsEntry = Missing | Unreadable fileStat | Readable fileStat "line list"

type_synonym fileSystem = "path \<Rightarrow> fsEntry"

datatype ioError = OpenFailed | WriteFailed

text \<open>
  The host: what the JavaScript runtime and the platform decide. \<open>dateParse s\<close> is the
  time value of \<open>new Date(s)\<close> in milliseconds, \<open>None\<close> when it is \<open>NaN\<close>; the getters are
  those of \<open>Date\<close> in the local time zone, on a time value.
\<close>

record host =
  dateParse :: "jstring \<Rightarrow> int option"
  getFullYear :: "int \<Rightarrow> int"
  getMonth :: "int \<Rightarrow> nat"
  getDate :: "int \<Rightarrow> nat"
  getHours :: "int \<Rightarrow> nat"
  getMinutes :: "int \<Rightarrow> nat"
  toLowerCase :: "jstring \<Rightarrow> jstring"
  win32 :: bool

subsection \<open>fsUtils\<close>

definition statSafe :: "fileSystem \<Rightarrow> path \<Rightarrow> fileStat option" where
  "statSafe fs fsPath =
     (case fs fsPath of Missing \<Rightarrow> None | Unreadable st \<Rightarrow> Some st | Readable st ls \<Rightarrow> Some st)"

text \<open>\<open>fs.open\<close> rejects outside any \<open>try\<close> with a handler; an empty file reads no byte
  and gives \<open>null\<close>. The lines of a file are those that \<open>readline\<close> delivers; the first
  of them is what \<open>readFirstLineUtf8\<close> returns for a file whose first line ends in a line
  feed within the 512 KiB that it reads, and the model is of such files.\<close>

definition readFirstLineUtf8 :: "fileSystem \<Rightarrow> path \<Rightarrow> ioError + line option" where
  "readFirstLineUtf8 fs fsPath =
     (case fs fsPath of
        Readable st ls \<Rightarrow> Inr (case ls of [] \<Rightarrow> None | l # rest \<Rightarrow> Some l)
      | _ \<Rightarrow> Inl OpenFailed)"

definition normalizeCacheKey :: "host \<Rightarrow> path \<Rightarrow> path" where
  "normalizeCacheKey h fsPath = (if win32 h then map (toLowerCase h) fsPath else fsPath)"

subsection \<open>dateUtils\<close>

record ymd =
  year :: int
  month :: nat
  day :: nat

text \<open>\<open>n.toString()\<close> of an integer.\<close>

fun natToString :: "nat \<Rightarrow> jstring" where
  "natToString n = (if n < 10 then [48 + n] else natToString (n div 10) @ [48 + n mod 10])"

declare natToString.simps [simp del]

definition intToString :: "int \<Rightarrow> jstring" where
  "intToString i = (if i < 0 then 45 # natToString (nat (- i)) else natToString (nat i))"

text \<open>\<open>padStart(2, "0")\<close>\<close>

definition pad2 :: "nat \<Rightarrow> jstring" where
  "pad2 n = (let s = natToString n in replicate (2 - length s) 48 @ s)"

definition toYmdLocal :: "host \<Rightarrow> int \<Rightarrow> ymd" where
  "toYmdLocal h d = \<lparr>year = getFullYear h d, month = getMonth h d + 1, day = getDate h d\<rparr>"

definition ymdToString :: "ymd \<Rightarrow> jstring" where
  "ymdToString v = intToString (year v) @ str ''-'' @ pad2 (month v) @ str ''-'' @ pad2 (day v)"

definition formatTimeHmLocal :: "host \<Rightarrow> int \<Rightarrow> jstring" where
  "formatTimeHmLocal h d = pad2 (getHours h d) @ str '':'' @ pad2 (getMinutes h d)"

section \<open>The summary extractor (sessionSummary)\<close>

record sessionMetaInfo =
  metaId :: "jstring option"
  timestampIso :: "jstring option"
  cwd :: "jstring option"
  originator :: "jstring option"
  cliVersion :: "jstring option"
  modelProvider :: "jstring option"
  metaSource :: "jstring option"

text \<open>The object \<open>{}\<close> that stands for the metadata when the first line gives none.\<close>

definition noMeta :: sessionMetaInfo where
  "noMeta = \<lparr>metaId = None, timestampIso = None, cwd = None, originator = None,
             cliVersion = None, modelProvider = None, metaSource = None\<rparr>"

record previewMessage =
  role :: chatRole
  msgText :: jstring

record sessionSummary =
  fsPath :: path
  cacheKey :: path
  meta :: sessionMetaInfo
  inferredYmd :: "ymd option"
  localDate :: jstring
  timeLabel :: jstring
  snippet :: jstring
  cwdShort :: jstring
  previewMessages :: "previewMessage list"

text \<open>The body of the \<open>try\<close> of \<open>tryReadSessionMeta\<close>, on the parsed first line. Reading
  \<open>obj.type\<close> of \<open>null\<close> throws, and the handler returns \<open>null\<close>; \<open>obj.payload ?? {}\<close>
  replaces a missing or \<open>null\<close> payload.\<close>

definition sessionMetaOf :: "json \<Rightarrow> sessionMetaInfo option" where
  "sessionMetaOf obj =
     (if obj = JNull then None
      else if getProp (Some obj) (str ''type'') \<noteq> Some (JStr (str ''session_meta'')) then None
      else let payload = (case getProp (Some obj) (str ''payload'') of
                            None \<Rightarrow> JObj [] | Some JNull \<Rightarrow> JObj [] | Some p \<Rightarrow> p)
           in Some \<lparr>metaId = stringProp payload (str ''id''),
                    timestampIso = stringProp payload (str ''timestamp''),
                    cwd = stringProp payload (str ''cwd''),
                    originator = stringProp payload (str ''originator''),
                    cliVersion = stringProp payload (str ''cli_version''),
                    modelProvider = stringProp payload (str ''model_provider''),
                    metaSource = stringProp payload (str ''source'')\<rparr>)"

definition tryReadSessionMeta :: "fileSystem \<Rightarrow> path \<Rightarrow> ioError + sessionMetaInfo option" where
  "tryReadSessionMeta fs p =
     (case readFirstLineUtf8 fs p of
        Inl e \<Rightarrow> Inl e
      | Inr None \<Rightarrow> Inr None
      | Inr (Some Blank) \<Rightarrow> Inr None
      | Inr (Some Malformed) \<Rightarrow> Inr None
      | Inr (Some (Parsed obj)) \<Rightarrow> Inr (sessionMetaOf obj))"

text \<open>\<open>/^\d{4}$/\<close> and \<open>/^\d{2}$/\<close>, and \<open>Number\<close> on such a string.\<close>

definition isDigits :: "nat \<Rightarrow> jstring \<Rightarrow> bool" where
  "isDigits n s = (length s = n \<and> list_all isDigit s)"

definition digitsToNat :: "jstring \<Rightarrow> nat" where
  "digitsToNat s = foldl (\<lambda>acc c. 10 * acc + (c - 48)) 0 s"

definition inferYmdFromPath :: "path \<Rightarrow> path \<Rightarrow> ymd option" where
  "inferYmdFromPath sessionsRoot p =
     (case relativeParts sessionsRoot p of
        y # m # d # f # others \<Rightarrow>
          if \<not> isDigits 4 y \<or> \<not> isDigits 2 m \<or> \<not> isDigits 2 d then None
          else let yr = digitsToNat y; mo = digitsToNat m; dy = digitsToNat d
               in if \<not> (1970 \<le> yr \<and> yr \<le> 9999 \<and> 1 \<le> mo \<and> mo \<le> 12 \<and> 1 \<le> dy \<and> dy \<le> 31)
                  then None
                  else Some \<lparr>year = int yr, month = mo, day = dy\<rparr>
      | _ \<Rightarrow> None)"

definition isBoilerplateUserMessage :: "jstring \<Rightarrow> bool" where
  "isBoilerplateUserMessage txt =
     (let t = trim txt
      in startsWith t (str ''<environment_context>'')
         \<or> startsWith t (str ''# AGENTS.md instructions'')
         \<or> startsWith t (str ''<INSTRUCTIONS>''))"

text \<open>One turn of the loop of \<open>readPreviewMessages\<close> on a line, below the test of the
  limit: the preview message the line adds, if any.\<close>

definition previewOfLine :: "line \<Rightarrow> previewMessage option" where
  "previewOfLine l =
     (case l of
        Blank \<Rightarrow> None
      | Malformed \<Rightarrow> None
      | Parsed obj \<Rightarrow>
          (case messageOf obj of
             None \<Rightarrow> None
           | Some (r, textRaw) \<Rightarrow>
               let textNormalized = normalizeWhitespace textRaw;
                   t = (if r = User
                        then (case extractUserRequestText textNormalized of
                                Some req \<Rightarrow> req | None \<Rightarrow> textNormalized)
                        else textNormalized)
               in if t = [] then None
                  else if r = User \<and> isBoilerplateUserMessage t then None
                  else Some \<lparr>role = r,
                             msgText = (if length t > 1200 then take 1199 t @ [ellipsis] else t)\<rparr>))"

text \<open>The loop of \<open>readPreviewMessages\<close>; \<open>result\<close> is the list built so far.\<close>

fun collectPreview :: "nat \<Rightarrow> previewMessage list \<Rightarrow> line list \<Rightarrow> previewMessage list" where
  "collectPreview maxMessages result [] = result"
| "collectPreview maxMessages result (l # ls) =
     (if length result \<ge> maxMessages then result
      else (case previewOfLine l of
              None \<Rightarrow> collectPreview maxMessages result ls
            | Some m \<Rightarrow> collectPreview maxMessages (result @ [m]) ls))"

definition readPreviewMessages :: "fileSystem \<Rightarrow> path \<Rightarrow> nat \<Rightarrow> ioError + previewMessage list" where
  "readPreviewMessages fs p maxMessages =
     (case fs p of
        Readable st ls \<Rightarrow> Inr (collectPreview maxMessages [] ls)
      | _ \<Rightarrow> Inl OpenFailed)"

text \<open>\<open>/^Generate a concise UI title \(20-40 characters\) for this task\b/i\<close>\<close>

definition isUiTitleGenerationPrompt :: "jstring \<Rightarrow> bool" where
  "isUiTitleGenerationPrompt txt =
     (let s = trim txt;
          lit = str ''Generate a concise UI title (20-40 characters) for this task''
      in startsWithIgnoreCase s lit
         \<and> (case drop (length lit) s of [] \<Rightarrow> True | c # cs \<Rightarrow> \<not> isWordChar c))"

definition pickSessionSnippetSource :: "previewMessage list \<Rightarrow> jstring option" where
  "pickSessionSnippetSource messages =
     (case dropWhile (\<lambda>m. \<not> (role m = User \<and> trim (msgText m) \<noteq> [])) messages of
        [] \<Rightarrow> None
      | u # after \<Rightarrow>
          (let firstUser = trim (msgText u)
           in if isUiTitleGenerationPrompt firstUser
              then (case find (\<lambda>m. role m = Assistant \<and> trim (msgText m) \<noteq> []) after of
                      None \<Rightarrow> Some firstUser
                    | Some nextAssistant \<Rightarrow> Some (trim (msgText nextAssistant)))
              else Some firstUser))"

text \<open>The start of the session: \<open>meta.timestampIso ? new Date(meta.timestampIso) : null\<close>,
  kept when its time value is not \<open>NaN\<close>.\<close>

definition startLocalOf :: "host \<Rightarrow> sessionMetaInfo \<Rightarrow> int option" where
  "startLocalOf h m =
     (case timestampIso m of
        None \<Rightarrow> None
      | Some ts \<Rightarrow> if ts = [] then None else dateParse h ts)"

definition buildSessionSummary ::
  "host \<Rightarrow> fileSystem \<Rightarrow> path \<Rightarrow> path \<Rightarrow> nat \<Rightarrow> ioError + sessionSummary option" where
  "buildSessionSummary h fs sessionsRoot p previewMaxMessages =
     (case statSafe fs p of
        None \<Rightarrow> Inr None
      | Some st \<Rightarrow>
          (case tryReadSessionMeta fs p of
             Inl e \<Rightarrow> Inl e
           | Inr metaRead \<Rightarrow>
               let m = (case metaRead of None \<Rightarrow> noMeta | Some m' \<Rightarrow> m');
                   inferred = inferYmdFromPath sessionsRoot p;
                   startLocal = startLocalOf h m;
                   v = (case inferred of
                          Some i \<Rightarrow> i
                        | None \<Rightarrow> (case startLocal of
                                     Some d \<Rightarrow> toYmdLocal h d
                                   | None \<Rightarrow> toYmdLocal h (mtimeMs st)));
                   label = (case startLocal of
                              Some d \<Rightarrow> formatTimeHmLocal h d
                            | None \<Rightarrow> str ''--:--'')
               in (case readPreviewMessages fs p previewMaxMessages of
                     Inl e \<Rightarrow> Inl e
                   | Inr previews \<Rightarrow>
                       Inr (Some \<lparr>fsPath = p,
                                  cacheKey = normalizeCacheKey h p,
                                  meta = m,
                                  inferredYmd = inferred,
                                  localDate = ymdToString v,
                                  timeLabel = label,
                                  snippet = (case pickSessionSnippetSource previews of
                                               None \<Rightarrow> basename p
                                             | Some src \<Rightarrow> if src = [] then basename p
                                                            else singleLineSnippet src 70),
                                  cwdShort = (case cwd m of
                                                None \<Rightarrow> []
                                              | Some c \<Rightarrow> if c = [] then []
                                                          else safeDisplayPath c 80),
                                  previewMessages = previews\<rparr>))))"

section \<open>Sorting, as \<open>Array.prototype.sort\<close> does with a comparator\<close>

text \<open>
  \<open>a < b\<close> on strings compares code units from the left; a proper prefix is smaller.
\<close>

fun strLess :: "jstring \<Rightarrow> jstring \<Rightarrow> bool" where
  "strLess [] [] = False"
| "strLess [] (y # ys) = True"
| "strLess (x # xs) [] = False"
| "strLess (x # xs) (y # ys) = (x < y \<or> (x = y \<and> strLess xs ys))"

text \<open>
  \<open>xs.sort(cmp)\<close> is stable: elements that compare equal keep their order. For the
  comparators of this code, which order by keys, the result is that of a stable
  insertion sort; \<open>x\<close> stays in front of \<open>y\<close> when \<open>cmp x y \<le> 0\<close>.
\<close>

fun insertBy :: "('a \<Rightarrow> 'a \<Rightarrow> int) \<Rightarrow> 'a \<Rightarrow> 'a list \<Rightarrow> 'a list" where
  "insertBy cmp x [] = [x]"
| "insertBy cmp x (y # ys) = (if cmp x y \<le> 0 then x # y # ys else y # insertBy cmp x ys)"

definition jsSort :: "('a \<Rightarrow> 'a \<Rightarrow> int) \<Rightarrow> 'a list \<Rightarrow> 'a list" where
  "jsSort cmp xs = foldr (insertBy cmp) xs []"

text \<open>The comparator of \<open>refresh\<close> and of the search: newest first by \<open>localDate\<close>, then
  by \<open>timeLabel\<close>.\<close>

definition compareTimeLabel :: "sessionSummary \<Rightarrow> sessionSummary \<Rightarrow> int" where
  "compareTimeLabel a b =
     (if strLess (timeLabel a) (timeLabel b) then 1
      else if strLess (timeLabel b) (timeLabel a) then - 1 else 0)"

definition compareSessions :: "sessionSummary \<Rightarrow> sessionSummary \<Rightarrow> int" where
  "compareSessions a b =
     (if localDate a \<noteq> localDate b
      then (if strLess (localDate a) (localDate b) then 1 else - 1)
      else compareTimeLabel a b)"

section \<open>The search (searchSessions)\<close>

record searchHit =
  messageIndex :: nat
  hitRole :: chatRole
  hitSnippet :: jstring

record sessionHits =
  session :: sessionSummary
  hits :: "searchHit list"

text \<open>What the search does to the outside: a progress report \<open>i/total\<close> and the call of
  \<open>fs.createReadStream\<close> on a file.\<close>

datatype searchEvent = Report nat nat | Opened path

text \<open>
  The cancellation token is read at points of the run; \<open>token n\<close> is what the read number
  \<open>n\<close> (from 0) of \<open>isCancellationRequested\<close> returns.
\<close>

record searchParams =
  sessions :: "sessionSummary list"
  query :: jstring
  maxResults :: nat
  caseSensitive :: bool
  token :: "nat \<Rightarrow> bool"

text \<open>The variables of the run: the \<open>Map\<close> \<open>bySession\<close> in insertion order, \<open>totalHits\<close>,
  the number of reads of the token so far, whether \<open>return null\<close> was taken, the
  effects so far, and the error that ended the run, if any.\<close>

record searchState =
  bySession :: "(path \<times> sessionHits) list"
  totalHits :: nat
  checks :: nat
  cancelled :: bool
  events :: "searchEvent list"
  searchFailure :: "ioError option"

text \<open>\<open>hay.indexOf(needle)\<close>: \<open>None\<close> is \<open>-1\<close>.\<close>

fun indexOf :: "jstring \<Rightarrow> jstring \<Rightarrow> nat option" where
  "indexOf [] needle = (if needle = [] then Some 0 else None)"
| "indexOf (c # cs) needle =
     (if startsWith (c # cs) needle then Some 0 else map_option Suc (indexOf cs needle))"

definition buildAround :: "jstring \<Rightarrow> nat \<Rightarrow> nat \<Rightarrow> jstring" where
  "buildAround txt hitAt needleLen =
     (let start = hitAt - 40;
          end' = min (length txt) (hitAt + needleLen + 80);
          head = (if start > 0 then [ellipsis] else []);
          tail = (if end' < length txt then [ellipsis] else [])
      in head @ take (end' - start) (drop start txt) @ tail)"

text \<open>The tests of the inner loop from \<open>if (!line) continue\<close> to \<open>if (!text) continue\<close>:
  the role and the normalised text of a line that counts as a message.\<close>

definition searchableMessage :: "line \<Rightarrow> (chatRole \<times> jstring) option" where
  "searchableMessage l =
     (case l of
        Blank \<Rightarrow> None
      | Malformed \<Rightarrow> None
      | Parsed obj \<Rightarrow>
          (case messageOf obj of
             None \<Rightarrow> None
           | Some (r, textRaw) \<Rightarrow>
               let t = normalizeWhitespace textRaw in if t = [] then None else Some (r, t)))"

definition matchAt :: "host \<Rightarrow> searchParams \<Rightarrow> jstring \<Rightarrow> nat option" where
  "matchAt h ps txt =
     (let normalizedNeedle = (if caseSensitive ps then query ps else toLowerCase h (query ps));
          hay = (if caseSensitive ps then txt else toLowerCase h txt)
      in indexOf hay normalizedNeedle)"

definition makeHit :: "searchParams \<Rightarrow> nat \<Rightarrow> chatRole \<Rightarrow> jstring \<Rightarrow> nat \<Rightarrow> searchHit" where
  "makeHit ps msgIndex r txt hitAt =
     \<lparr>messageIndex = msgIndex, hitRole = r,
      hitSnippet = singleLineSnippet (buildAround txt hitAt (length (query ps))) 160\<rparr>"

text \<open>\<open>if (!bySession.has(key)) bySession.set(key, {session, hits: []});
  bySession.get(key).hits.push(hit)\<close>\<close>

fun addHit ::
  "path \<Rightarrow> sessionSummary \<Rightarrow> searchHit \<Rightarrow> (path \<times> sessionHits) list \<Rightarrow> (path \<times> sessionHits) list" where
  "addHit k s hit [] = [(k, \<lparr>session = s, hits = [hit]\<rparr>)]"
| "addHit k s hit ((k', e) # rest) =
     (if k' = k then (k', e\<lparr>hits := hits e @ [hit]\<rparr>) # rest
      else (k', e) # addHit k s hit rest)"

text \<open>One turn of the inner loop on a line, with the counter \<open>msgIndex\<close> of the file:
  \<open>Stop\<close> when the turn leaves the loop (\<open>return null\<close> sets \<open>cancelled\<close>, \<open>break\<close> does
  not), \<open>Continue\<close> with the new counter otherwise.\<close>

datatype scanStep = Stop searchState | Continue nat searchState

definition scanLine ::
  "host \<Rightarrow> searchParams \<Rightarrow> sessionSummary \<Rightarrow> nat \<Rightarrow> searchState \<Rightarrow> line \<Rightarrow> scanStep" where
  "scanLine h ps s msgIndex st l =
     (if token ps (checks st) then Stop (st\<lparr>checks := Suc (checks st), cancelled := True\<rparr>)
      else let st1 = st\<lparr>checks := Suc (checks st)\<rparr> in
        if totalHits st1 \<ge> maxResults ps then Stop st1
        else (case searchableMessage l of
                None \<Rightarrow> Continue msgIndex st1
              | Some (r, txt) \<Rightarrow>
                  (case matchAt h ps txt of
                     None \<Rightarrow> Continue (Suc msgIndex) st1
                   | Some hitAt \<Rightarrow>
                       let st2 = st1\<lparr>bySession := addHit (cacheKey s) s
                                                  (makeHit ps (Suc msgIndex) r txt hitAt)
                                                  (bySession st1),
                                     totalHits := Suc (totalHits st1)\<rparr>
                       in if totalHits st2 \<ge> maxResults ps then Stop st2
                          else Continue (Suc msgIndex) st2)))"

text \<open>The inner loop over the lines of one file.\<close>

fun scanLines ::
  "host \<Rightarrow> searchParams \<Rightarrow> sessionSummary \<Rightarrow> nat \<Rightarrow> searchState \<Rightarrow> line list \<Rightarrow> searchState" where
  "scanLines h ps s msgIndex st [] = st"
| "scanLines h ps s msgIndex st (l # ls) =
     (case scanLine h ps s msgIndex st l of
        Stop st' \<Rightarrow> st'
      | Continue msgIndex' st' \<Rightarrow> scanLines h ps s msgIndex' st' ls)"

text \<open>The start of a candidate, once the token was read unset: the progress report and
  the opening of the file.\<close>

definition startFile :: "searchParams \<Rightarrow> nat \<Rightarrow> sessionSummary \<Rightarrow> searchState \<Rightarrow> searchState" where
  "startFile ps i s st =
     st\<lparr>checks := Suc (checks st),
        events := events st @ [Report (i + 1) (length (sessions ps)), Opened (fsPath s)]\<rparr>"

text \<open>The outer loop; \<open>i\<close> is the index of the next candidate. \<open>content p\<close> gives the lines
  that the stream over the file \<open>p\<close> delivers, and is \<open>None\<close> when the file cannot be
  opened: then the iteration over the lines throws, the \<open>try\<close> around it has a \<open>finally\<close>
  and no \<open>catch\<close>, and the search ends in that error.\<close>

fun searchFiles ::
  "host \<Rightarrow> (path \<Rightarrow> line list option) \<Rightarrow> searchParams \<Rightarrow> nat \<Rightarrow> searchState
     \<Rightarrow> sessionSummary list \<Rightarrow> searchState" where
  "searchFiles h content ps i st [] = st"
| "searchFiles h content ps i st (s # rest) =
     (if token ps (checks st) then st\<lparr>checks := Suc (checks st), cancelled := True\<rparr>
      else (case content (fsPath s) of
              None \<Rightarrow> (startFile ps i s st)\<lparr>searchFailure := Some OpenFailed\<rparr>
            | Some ls \<Rightarrow>
                let st' = scanLines h ps s 0 (startFile ps i s st) ls
                in if cancelled st' then st' else searchFiles h content ps (i + 1) st' rest))"

definition searchStart :: searchState where
  "searchStart = \<lparr>bySession = [], totalHits = 0, checks = 0, cancelled = False, events = [],
                   searchFailure = None\<rparr>"

definition searchRun :: "host \<Rightarrow> (path \<Rightarrow> line list option) \<Rightarrow> searchParams \<Rightarrow> searchState" where
  "searchRun h content ps = searchFiles h content ps 0 searchStart (sessions ps)"

record searchResult =
  resultTotalHits :: nat
  resultSessions :: "sessionHits list"

definition compareSessionHits :: "sessionHits \<Rightarrow> sessionHits \<Rightarrow> int" where
  "compareSessionHits a b = compareSessions (session a) (session b)"

definition compareHits :: "searchHit \<Rightarrow> searchHit \<Rightarrow> int" where
  "compareHits a b = int (messageIndex a) - int (messageIndex b)"

text \<open>How \<open>searchSessions\<close> ends: \<open>Inr None\<close> is \<open>null\<close>, \<open>Inl\<close> the error with which the
  promise rejects.\<close>

definition searchSessions ::
  "host \<Rightarrow> (path \<Rightarrow> line list option) \<Rightarrow> searchParams \<Rightarrow> ioError + searchResult option" where
  "searchSessions h content ps =
     (let st = searchRun h content ps
      in if cancelled st then Inr None
         else (case searchFailure st of
                 Some e \<Rightarrow> Inl e
               | None \<Rightarrow>
                   Inr (Some \<lparr>resultTotalHits = totalHits st,
                              resultSessions =
                                map (\<lambda>e. e\<lparr>hits := jsSort compareHits (hits e)\<rparr>)
                                    (jsSort compareSessionHits (map snd (bySession st)))\<rparr>)))"

section \<open>The index (buildIndex)\<close>

text \<open>A \<open>Map\<close> is a partial function here: the claims below read the buckets by key and
  do not depend on the order of the keys.\<close>

record historyIndex =
  indexRoot :: path
  indexSessions :: "sessionSummary list"
  byYmd :: "jstring \<rightharpoonup> sessionSummary list"
  byYm :: "jstring \<rightharpoonup> (jstring \<rightharpoonup> sessionSummary list)"
  byY :: "jstring \<rightharpoonup> (jstring \<rightharpoonup> (jstring \<rightharpoonup> sessionSummary list))"

definition emptyIndex :: "path \<Rightarrow> historyIndex" where
  "emptyIndex root =
     \<lparr>indexRoot = root, indexSessions = [], byYmd = Map.empty, byYm = Map.empty, byY = Map.empty\<rparr>"

text \<open>One turn of the first loop of \<open>buildIndex\<close>. \<open>const [yyyy, mm, dd] = ymd.split("-")\<close>
  takes the first three parts; a missing or empty one skips the summary.\<close>

definition indexSession :: "historyIndex \<Rightarrow> sessionSummary \<Rightarrow> historyIndex" where
  "indexSession idx s =
     (case splitOn 45 (localDate s) of
        yyyy # mm # dd # others \<Rightarrow>
          if yyyy = [] \<or> mm = [] \<or> dd = [] then idx
          else let byMonth = (case byY idx yyyy of None \<Rightarrow> Map.empty | Some months \<Rightarrow> months);
                   byDay = (case byMonth mm of None \<Rightarrow> Map.empty | Some days \<Rightarrow> days);
                   dayList = (case byDay dd of None \<Rightarrow> [] | Some l \<Rightarrow> l);
                   ymdList = (case byYmd idx (localDate s) of None \<Rightarrow> [] | Some l \<Rightarrow> l);
                   ymMap = (case byYm idx yyyy of None \<Rightarrow> Map.empty | Some months \<Rightarrow> months);
                   ymList = (case ymMap mm of None \<Rightarrow> [] | Some l \<Rightarrow> l)
               in idx\<lparr>byY := (byY idx)(yyyy \<mapsto> byMonth(mm \<mapsto> byDay(dd \<mapsto> dayList @ [s]))),
                      byYmd := (byYmd idx)(localDate s \<mapsto> ymdList @ [s]),
                      byYm := (byYm idx)(yyyy \<mapsto> ymMap(mm \<mapsto> ymList @ [s]))\<rparr>
      | _ \<Rightarrow> idx)"

text \<open>The second loop: every day list of \<open>byY\<close> is sorted by time label, newest first.\<close>

definition sortDayLists ::
  "(jstring \<rightharpoonup> (jstring \<rightharpoonup> (jstring \<rightharpoonup> sessionSummary list)))
     \<Rightarrow> (jstring \<rightharpoonup> (jstring \<rightharpoonup> (jstring \<rightharpoonup> sessionSummary list)))" where
  "sortDayLists years =
     (\<lambda>y. map_option (\<lambda>months. \<lambda>m. map_option (\<lambda>days. \<lambda>d.
              map_option (jsSort compareTimeLabel) (days d)) (months m)) (years y))"

definition buildIndex :: "path \<Rightarrow> sessionSummary list \<Rightarrow> historyIndex" where
  "buildIndex root summaries =
     (let idx = foldl indexSession ((emptyIndex root)\<lparr>indexSessions := summaries\<rparr>) summaries
      in idx\<lparr>byY := sortDayLists (byY idx)\<rparr>)"

text \<open>The day list of a year, month and day; empty when a key is absent.\<close>

definition dayBucket :: "historyIndex \<Rightarrow> jstring \<Rightarrow> jstring \<Rightarrow> jstring \<Rightarrow> sessionSummary list" where
  "dayBucket idx y m d =
     (case byY idx y of
        None \<Rightarrow> []
      | Some months \<Rightarrow>
          (case months m of
             None \<Rightarrow> []
           | Some days \<Rightarrow> (case days d of None \<Rightarrow> [] | Some l \<Rightarrow> l)))"

section \<open>The cache and the refresh (jsonStorage, historyService)\<close>

text \<open>
  Modelled from the spec: \<open>vscode.workspace.fs.writeFile\<close>, which belongs to the editor and
  is not in the repository. Global storage holds the text of each file. The specification
  speaks of a write that fails partway; such a write (\<open>FailedAfter n\<close>) leaves in the target
  the first \<open>n\<close> characters of the text, as a write in place does.
\<close>

type_synonym storage = "path \<rightharpoonup> jstring"

datatype writeOutcome = Completed | FailedAfter nat

definition writeFile :: "writeOutcome \<Rightarrow> path \<Rightarrow> jstring \<Rightarrow> storage \<Rightarrow> (ioError + unit) \<times> storage" where
  "writeFile outcome uri buf store =
     (case outcome of
        Completed \<Rightarrow> (Inr (), store(uri \<mapsto> buf))
      | FailedAfter n \<Rightarrow> (Inl WriteFailed, store(uri \<mapsto> take n buf)))"

text \<open>\<open>JSON.stringify\<close> and \<open>JSON.parse\<close> on documents of one type.\<close>

record 'a codec =
  stringify :: "'a \<Rightarrow> jstring"
  parse :: "jstring \<Rightarrow> 'a option"

definition readJson :: "'a codec \<Rightarrow> path \<Rightarrow> storage \<Rightarrow> 'a option" where
  "readJson cod uri store = (case store uri of None \<Rightarrow> None | Some txt \<Rightarrow> parse cod txt)"

definition writeJson ::
  "'a codec \<Rightarrow> writeOutcome \<Rightarrow> path \<Rightarrow> 'a \<Rightarrow> storage \<Rightarrow> (ioError + unit) \<times> storage" where
  "writeJson cod outcome uri doc store = writeFile outcome uri (stringify cod doc) store"

record cacheEntryV1 =
  entryMtimeMs :: int
  entrySize :: nat
  summary :: sessionSummary

definition SUMMARY_CACHE_ALGO_VERSION :: int where
  "SUMMARY_CACHE_ALGO_VERSION = 3"

record cacheFileV4 =
  version :: int
  summaryAlgoVersion :: int
  cacheSessionsRoot :: path
  cachePreviewMaxMessages :: nat
  cacheDateTimeSettingsKey :: jstring
  entries :: "path \<rightharpoonup> cacheEntryV1"

record config =
  sessionsRoot :: path
  previewMaxMessages :: nat

text \<open>\<open>cachedEntries\<close> of \<open>refresh\<close>: the entries of the cache read, or none.\<close>

definition cachedEntriesOf ::
  "config \<Rightarrow> jstring \<Rightarrow> cacheFileV4 option \<Rightarrow> (path \<rightharpoonup> cacheEntryV1)" where
  "cachedEntriesOf cfg dateTimeSettingsKey cache =
     (case cache of
        None \<Rightarrow> Map.empty
      | Some c \<Rightarrow>
          if version c = 4 \<and> summaryAlgoVersion c = SUMMARY_CACHE_ALGO_VERSION
             \<and> cacheSessionsRoot c = sessionsRoot cfg
             \<and> cachePreviewMaxMessages c = previewMaxMessages cfg
             \<and> cacheDateTimeSettingsKey c = dateTimeSettingsKey
          then entries c else Map.empty)"

text \<open>\<open>vscode.workspace.fs.stat\<close> inside the \<open>try\<close> of the loop.\<close>

definition workspaceStat :: "fileSystem \<Rightarrow> path \<Rightarrow> fileStat option" where
  "workspaceStat fs p =
     (case fs p of Missing \<Rightarrow> None | Unreadable st \<Rightarrow> Some st | Readable st ls \<Rightarrow> Some st)"

text \<open>The variables of the loop over the files found; \<open>extractorCalls\<close> lists the paths
  on which \<open>buildSessionSummary\<close> was called, and \<open>failure\<close> is the exception that ended
  the loop.\<close>

record reconcileState =
  nextEntries :: "path \<rightharpoonup> cacheEntryV1"
  summaries :: "sessionSummary list"
  extractorCalls :: "path list"
  failure :: "ioError option"

text \<open>\<open>cached && cached.mtimeMs === st.mtimeMs && cached.size === st.size\<close>: the entry
  that is reused, if any.\<close>

definition cachedFor :: "(path \<rightharpoonup> cacheEntryV1) \<Rightarrow> path \<Rightarrow> fileStat \<Rightarrow> cacheEntryV1 option" where
  "cachedFor cachedEntries key stt =
     (case cachedEntries key of
        None \<Rightarrow> None
      | Some cached \<Rightarrow>
          if entryMtimeMs cached = mtimeMs stt \<and> entrySize cached = fileSize stt
          then Some cached else None)"

text \<open>One turn of the loop over the files found.\<close>

definition reconcileFile ::
  "host \<Rightarrow> fileSystem \<Rightarrow> config \<Rightarrow> (path \<rightharpoonup> cacheEntryV1) \<Rightarrow> reconcileState \<Rightarrow> path
     \<Rightarrow> reconcileState" where
  "reconcileFile h fs cfg cachedEntries st p =
     (let key = normalizeCacheKey h p in
      case workspaceStat fs p of
        None \<Rightarrow> st
      | Some stt \<Rightarrow>
          (case cachedFor cachedEntries key stt of
             Some cached \<Rightarrow>
               st\<lparr>nextEntries := (nextEntries st)(key \<mapsto> cached),
                  summaries := summaries st @ [summary cached]\<rparr>
           | None \<Rightarrow>
               (case buildSessionSummary h fs (sessionsRoot cfg) p (previewMaxMessages cfg) of
                  Inl e \<Rightarrow> st\<lparr>extractorCalls := extractorCalls st @ [p], failure := Some e\<rparr>
                | Inr None \<Rightarrow> st\<lparr>extractorCalls := extractorCalls st @ [p]\<rparr>
                | Inr (Some sm) \<Rightarrow>
                    st\<lparr>nextEntries := (nextEntries st)(key \<mapsto>
                          \<lparr>entryMtimeMs = mtimeMs stt, entrySize = fileSize stt, summary = sm\<rparr>),
                       summaries := summaries st @ [sm],
                       extractorCalls := extractorCalls st @ [p]\<rparr>)))"

text \<open>The loop: an exception of the extractor ends it.\<close>

fun reconcileFiles ::
  "host \<Rightarrow> fileSystem \<Rightarrow> config \<Rightarrow> (path \<rightharpoonup> cacheEntryV1) \<Rightarrow> reconcileState \<Rightarrow> path list
     \<Rightarrow> reconcileState" where
  "reconcileFiles h fs cfg cachedEntries st [] = st"
| "reconcileFiles h fs cfg cachedEntries st (p # ps) =
     (let st' = reconcileFile h fs cfg cachedEntries st p
      in if failure st' \<noteq> None then st' else reconcileFiles h fs cfg cachedEntries st' ps)"

definition reconcileStart :: reconcileState where
  "reconcileStart = \<lparr>nextEntries = Map.empty, summaries = [], extractorCalls = [], failure = None\<rparr>"

text \<open>What a refresh reads and changes: the index of the service, global storage, and
  the calls of the extractor so far.\<close>

record world =
  index :: historyIndex
  globalStorage :: storage
  extractorLog :: "path list"

definition cacheUri :: "path \<Rightarrow> path" where
  "cacheUri globalStorageUri = globalStorageUri @ [str ''cache.v4.json'']"

text \<open>\<open>refresh\<close>. \<open>found\<close> is \<open>None\<close> when \<open>pathExists(sessionsRoot)\<close> is false, and else
  the list that \<open>findSessionFiles\<close> returns.\<close>

definition refresh ::
  "host \<Rightarrow> cacheFileV4 codec \<Rightarrow> fileSystem \<Rightarrow> path \<Rightarrow> config \<Rightarrow> jstring \<Rightarrow> path list option
     \<Rightarrow> bool \<Rightarrow> writeOutcome \<Rightarrow> world \<Rightarrow> (ioError + unit) \<times> world" where
  "refresh h cod fs globalStorageUri cfg dateTimeSettingsKey found forceRebuildCache outcome w =
     (case found of
        None \<Rightarrow> (Inr (), w\<lparr>index := emptyIndex (sessionsRoot cfg)\<rparr>)
      | Some files \<Rightarrow>
          let cache = (if forceRebuildCache then None
                       else readJson cod (cacheUri globalStorageUri) (globalStorage w));
              cachedEntries = cachedEntriesOf cfg dateTimeSettingsKey cache;
              st = reconcileFiles h fs cfg cachedEntries reconcileStart files;
              w1 = w\<lparr>extractorLog := extractorLog w @ extractorCalls st\<rparr>
          in (case failure st of
               Some e \<Rightarrow> (Inl e, w1)
             | None \<Rightarrow>
                 let sorted = jsSort compareSessions (summaries st);
                     nextCache = \<lparr>version = 4,
                                  summaryAlgoVersion = SUMMARY_CACHE_ALGO_VERSION,
                                  cacheSessionsRoot = sessionsRoot cfg,
                                  cachePreviewMaxMessages = previewMaxMessages cfg,
                                  cacheDateTimeSettingsKey = dateTimeSettingsKey,
                                  entries = nextEntries st\<rparr>;
                     w2 = w1\<lparr>index := buildIndex (sessionsRoot cfg) sorted\<rparr>
                 in (case writeJson cod outcome (cacheUri globalStorageUri) nextCache
                            (globalStorage w2) of
                       (res, store') \<Rightarrow> (res, w2\<lparr>globalStorage := store'\<rparr>))))"

section \<open>A host and files for the examples\<close>

text \<open>
  A POSIX machine in the UTC time zone. Its \<open>Date\<close> reads only timestamps of the form
  \<open>YYYY-MM-DDTHH:MM:SSZ\<close>, and its \<open>toLowerCase\<close> folds the ASCII letters. The calendar
  is the proleptic Gregorian one, computed from the day number since 1970-01-01.
\<close>

definition civilFromDays :: "int \<Rightarrow> int \<times> nat \<times> nat" where
  "civilFromDays z0 =
     (let z = z0 + 719468;
          era = z div 146097;
          doe = z - era * 146097;
          yoe = (doe - doe div 1460 + doe div 36524 - doe div 146096) div 365;
          doy = doe - (365 * yoe + yoe div 4 - yoe div 100);
          mp = (5 * doy + 2) div 153;
          d = doy - (153 * mp + 2) div 5 + 1;
          m = (if mp < 10 then mp + 3 else mp - 9);
          y = yoe + era * 400 + (if m \<le> 2 then 1 else 0)
      in (y, nat m, nat d))"

definition daysFromCivil :: "int \<Rightarrow> int \<Rightarrow> int \<Rightarrow> int" where
  "daysFromCivil y0 m d =
     (let y = (if m \<le> 2 then y0 - 1 else y0);
          era = y div 400;
          yoe = y - era * 400;
          doy = (153 * (if m > 2 then m - 3 else m + 9) + 2) div 5 + d - 1;
          doe = yoe * 365 + yoe div 4 - yoe div 100 + doy
      in era * 146097 + doe - 719468)"

definition parseIsoUtc :: "jstring \<Rightarrow> int option" where
  "parseIsoUtc s =
     (if length s = 20 \<and> isDigits 4 (take 4 s) \<and> s ! 4 = 45 \<and> isDigits 2 (take 2 (drop 5 s))
         \<and> s ! 7 = 45 \<and> isDigits 2 (take 2 (drop 8 s)) \<and> s ! 10 = 84
         \<and> isDigits 2 (take 2 (drop 11 s)) \<and> s ! 13 = 58 \<and> isDigits 2 (take 2 (drop 14 s))
         \<and> s ! 16 = 58 \<and> isDigits 2 (take 2 (drop 17 s)) \<and> s ! 19 = 90
      then Some ((daysFromCivil (int (digitsToNat (take 4 s)))
                     (int (digitsToNat (take 2 (drop 5 s))))
                     (int (digitsToNat (take 2 (drop 8 s)))) * 86400
                  + int (digitsToNat (take 2 (drop 11 s))) * 3600
                  + int (digitsToNat (take 2 (drop 14 s))) * 60
                  + int (digitsToNat (take 2 (drop 17 s)))) * 1000)
      else None)"

definition utcHost :: host where
  "utcHost = \<lparr>dateParse = parseIsoUtc,
              getFullYear = (\<lambda>t. fst (civilFromDays (t div 86400000))),
              getMonth = (\<lambda>t. fst (snd (civilFromDays (t div 86400000))) - 1),
              getDate = (\<lambda>t. snd (snd (civilFromDays (t div 86400000)))),
              getHours = (\<lambda>t. nat ((t mod 86400000) div 3600000)),
              getMinutes = (\<lambda>t. nat ((t mod 3600000) div 60000)),
              toLowerCase = map asciiLower,
              win32 = False\<rparr>"

text \<open>The lines of the scenario of the specification. \<open>tag\<close> is the name of the member
  that tags a record: the code reads \<open>type\<close>, the specification writes \<open>kind\<close>.\<close>

definition metaLine :: "string \<Rightarrow> line" where
  "metaLine tag =
     Parsed (JObj [(str tag, JStr (str ''session_meta'')),
                   (str ''payload'', JObj [(str ''timestamp'', JStr (str ''2024-05-01T10:00:00Z'')),
                                           (str ''cwd'', JStr (str ''/proj''))])])"

definition messageLine :: "string \<Rightarrow> string \<Rightarrow> string \<Rightarrow> line" where
  "messageLine tag r t =
     Parsed (JObj [(str tag, JStr (str ''response_item'')),
                   (str ''payload'', JObj [(str ''type'', JStr (str ''message'')),
                                           (str ''role'', JStr (str r)),
                                           (str ''content'', JArr [JObj [(str ''text'', JStr (str t))]])])])"

definition rolloutA :: "string \<Rightarrow> line list" where
  "rolloutA tag =
     [metaLine tag, messageLine tag ''user'' ''hello world'', messageLine tag ''assistant'' ''hi there'']"

definition datedPath :: "path \<Rightarrow> path" where
  "datedPath root = root @ [str ''2024'', str ''05'', str ''01'', str ''rollout-A.jsonl'']"

definition homeRoot :: path where
  "homeRoot = [str ''home'', str ''u'', str ''.codex'', str ''sessions'']"

definition oneFile :: "path \<Rightarrow> fsEntry \<Rightarrow> fileSystem" where
  "oneFile p e = (\<lambda>q. if q = p then e else Missing)"

definition may1st :: fileStat where
  "may1st = \<lparr>mtimeMs = 1714560000000, fileSize = 300\<rparr>"

text \<open>The metadata that the first line of a file yields: \<open>tryReadSessionMeta(...) ?? {}\<close> on
  a file that opens.\<close>

definition firstLineMeta :: "line list \<Rightarrow> sessionMetaInfo" where
  "firstLineMeta ls =
     (case ls of
        Parsed obj # rest \<Rightarrow> (case sessionMetaOf obj of Some m \<Rightarrow> m | None \<Rightarrow> noMeta)
      | _ \<Rightarrow> noMeta)"

definition looseFile :: "path \<Rightarrow> path" where
  "looseFile root = root @ [str ''rollout-B.jsonl'']"

definition newYearsEvePath :: "path \<Rightarrow> path" where
  "newYearsEvePath root = root @ [str ''2023'', str ''12'', str ''31'', str ''rollout-C.jsonl'']"

definition june1st :: fileStat where
  "june1st = \<lparr>mtimeMs = 1717200000000, fileSize = 12\<rparr>"

text \<open>The summary of a file that opens, with stat \<open>st\<close> and lines \<open>ls\<close>, written out field
  by field; \<open>build_readable\<close> below shows that \<open>buildSessionSummary\<close> returns it.\<close>

definition summaryOf :: "host \<Rightarrow> path \<Rightarrow> path \<Rightarrow> nat \<Rightarrow> fileStat \<Rightarrow> line list \<Rightarrow> sessionSummary" where
  "summaryOf h root p n st ls =
     \<lparr>fsPath = p,
      cacheKey = normalizeCacheKey h p,
      meta = firstLineMeta ls,
      inferredYmd = inferYmdFromPath root p,
      localDate = ymdToString
        (case inferYmdFromPath root p of
           Some i \<Rightarrow> i
         | None \<Rightarrow> (case startLocalOf h (firstLineMeta ls) of
                      Some d \<Rightarrow> toYmdLocal h d
                    | None \<Rightarrow> toYmdLocal h (mtimeMs st))),
      timeLabel = (case startLocalOf h (firstLineMeta ls) of
                     Some d \<Rightarrow> formatTimeHmLocal h d
                   | None \<Rightarrow> str ''--:--''),
      snippet = (case pickSessionSnippetSource (collectPreview n [] ls) of
                   None \<Rightarrow> basename p
                 | Some src \<Rightarrow> if src = [] then basename p else singleLineSnippet src 70),
      cwdShort = (case cwd (firstLineMeta ls) of
                    None \<Rightarrow> []
                  | Some c \<Rightarrow> if c = [] then [] else safeDisplayPath c 80),
      previewMessages = collectPreview n [] ls\<rparr>"

section \<open>What the search is compared with\<close>

text \<open>The search without its token: the same parameters, never cancelled.\<close>

definition uninterrupted :: "searchParams \<Rightarrow> searchParams" where
  "uninterrupted ps = ps\<lparr>token := (\<lambda>n. False)\<rparr>"

text \<open>The token reads unset from read \<open>a\<close> up to read \<open>b\<close>, \<open>b\<close> excluded.\<close>

definition quiet :: "(nat \<Rightarrow> bool) \<Rightarrow> nat \<Rightarrow> nat \<Rightarrow> bool" where
  "quiet t a b = (\<forall>n. a \<le> n \<and> n < b \<longrightarrow> \<not> t n)"

text \<open>
  All hits of a file, with neither cap nor cancellation: the counter starts at \<open>k\<close> and
  every line that \<open>searchableMessage\<close> accepts (a message of role user or assistant whose
  normalised text is not empty) takes the next number, whether it matches or not.
\<close>

fun fileHits :: "host \<Rightarrow> searchParams \<Rightarrow> nat \<Rightarrow> line list \<Rightarrow> searchHit list" where
  "fileHits h ps k [] = []"
| "fileHits h ps k (l # ls) =
     (case searchableMessage l of
        None \<Rightarrow> fileHits h ps k ls
      | Some (r, txt) \<Rightarrow>
          (case matchAt h ps txt of
             None \<Rightarrow> fileHits h ps (Suc k) ls
           | Some hitAt \<Rightarrow> makeHit ps (Suc k) r txt hitAt # fileHits h ps (Suc k) ls))"

text \<open>The lines of a file, none when it does not open.\<close>

definition linesOf :: "(path \<Rightarrow> line list option) \<Rightarrow> path \<Rightarrow> line list" where
  "linesOf content p = (case content p of None \<Rightarrow> [] | Some ls \<Rightarrow> ls)"

definition allHits :: "host \<Rightarrow> (path \<Rightarrow> line list) \<Rightarrow> searchParams \<Rightarrow> sessionSummary list \<Rightarrow> searchHit list" where
  "allHits h content ps ss = concat (map (\<lambda>s. fileHits h ps 0 (content (fsPath s))) ss)"

text \<open>The entries that a search with room for \<open>room\<close> more hits collects over the
  candidates, in the order of the candidates: of each file the first hits that fit.\<close>

fun collected ::
  "host \<Rightarrow> (path \<Rightarrow> line list) \<Rightarrow> searchParams \<Rightarrow> nat \<Rightarrow> sessionSummary list \<Rightarrow> sessionHits list" where
  "collected h content ps room [] = []"
| "collected h content ps room (s # ss) =
     (let hs = take room (fileHits h ps 0 (content (fsPath s)))
      in (if hs = [] then [] else [\<lparr>session = s, hits = hs\<rparr>])
         @ collected h content ps (room - length hs) ss)"

text \<open>Pushing a list of hits of one session, one \<open>addHit\<close> after the other.\<close>

definition addHits ::
  "path \<Rightarrow> sessionSummary \<Rightarrow> searchHit list \<Rightarrow> (path \<times> sessionHits) list \<Rightarrow> (path \<times> sessionHits) list" where
  "addHits k s hs al = foldl (\<lambda>acc hit. addHit k s hit acc) al hs"

definition openedFiles :: "searchEvent list \<Rightarrow> path list" where
  "openedFiles evs = List.map_filter (\<lambda>e. case e of Opened p \<Rightarrow> Some p | Report i n \<Rightarrow> None) evs"

text \<open>A line that is a message record of role user or assistant, whatever its text.\<close>

definition isMessageRecord :: "line \<Rightarrow> bool" where
  "isMessageRecord l = (case l of Parsed obj \<Rightarrow> messageOf obj \<noteq> None | _ \<Rightarrow> False)"

text \<open>A comparator that orders by keys: any two elements compare, and the comparison is
  transitive.\<close>

definition keyComparator :: "('a \<Rightarrow> 'a \<Rightarrow> int) \<Rightarrow> bool" where
  "keyComparator cmp =
     ((\<forall>a b. cmp a b \<le> 0 \<or> cmp b a \<le> 0)
      \<and> (\<forall>a b c. cmp a b \<le> 0 \<and> cmp b c \<le> 0 \<longrightarrow> cmp a c \<le> 0))"

subsection \<open>Candidates for the examples\<close>

definition sessionAt :: "path \<Rightarrow> string \<Rightarrow> string \<Rightarrow> sessionSummary" where
  "sessionAt p date label =
     \<lparr>fsPath = p, cacheKey = p, meta = noMeta, inferredYmd = None, localDate = str date,
      timeLabel = str label, snippet = [], cwdShort = [], previewMessages = []\<rparr>"

definition sessionA :: sessionSummary where
  "sessionA = sessionAt (datedPath homeRoot) ''2024-05-01'' ''10:00''"

definition sessionC :: sessionSummary where
  "sessionC = sessionAt (newYearsEvePath homeRoot) ''2023-12-31'' ''09:30''"

definition sessionB :: sessionSummary where
  "sessionB = sessionAt (looseFile homeRoot) ''2024-05-01'' ''10:40''"

text \<open>The file of \<open>sessionC\<close> starts with an assistant message without text; the file of
  \<open>sessionB\<close> is not there any more.\<close>

definition corpus :: "path \<Rightarrow> line list option" where
  "corpus p =
     (if p = datedPath homeRoot then Some (rolloutA ''type'')
      else if p = newYearsEvePath homeRoot
        then Some [messageLine ''type'' ''assistant'' [], messageLine ''type'' ''user'' ''hello again'']
      else None)"

definition helloSearch :: "nat \<Rightarrow> (nat \<Rightarrow> bool) \<Rightarrow> searchParams" where
  "helloSearch k t =
     \<lparr>sessions = [sessionA, sessionC], query = str ''hello'', maxResults = k,
      caseSensitive = False, token = t\<rparr>"

text \<open>The same search with the candidate \<open>sessionB\<close> last.\<close>

definition goneSearch :: "nat \<Rightarrow> (nat \<Rightarrow> bool) \<Rightarrow> searchParams" where
  "goneSearch k t = (helloSearch k t)\<lparr>sessions := [sessionA, sessionC, sessionB]\<rparr>"

section \<open>What the reconciliation is compared with\<close>



text \<open>The names of two parts of \<open>refresh\<close>: the state in which its loop over the discovered
  paths ends, and the cache document that it hands to \<open>writeJson\<close>.\<close>

definition passOf ::
  "host \<Rightarrow> cacheFileV4 codec \<Rightarrow> fileSystem \<Rightarrow> path \<Rightarrow> config \<Rightarrow> jstring \<Rightarrow> path list \<Rightarrow> bool
     \<Rightarrow> world \<Rightarrow> reconcileState" where
  "passOf h cod fs g cfg dateTimeSettingsKey files forceRebuildCache w =
     reconcileFiles h fs cfg
       (cachedEntriesOf cfg dateTimeSettingsKey
          (if forceRebuildCache then None else readJson cod (cacheUri g) (globalStorage w)))
       reconcileStart files"

definition documentOf :: "config \<Rightarrow> jstring \<Rightarrow> reconcileState \<Rightarrow> cacheFileV4" where
  "documentOf cfg dateTimeSettingsKey st =
     \<lparr>version = 4, summaryAlgoVersion = SUMMARY_CACHE_ALGO_VERSION,
      cacheSessionsRoot = sessionsRoot cfg, cachePreviewMaxMessages = previewMaxMessages cfg,
      cacheDateTimeSettingsKey = dateTimeSettingsKey, entries = nextEntries st\<rparr>"

subsection \<open>A cache and files for the examples\<close>

text \<open>Two files under the root: the first is unchanged since the cache was written, the
  second has grown.\<close>

definition twoFiles :: fileSystem where
  "twoFiles =
     (\<lambda>q. if q = datedPath homeRoot then Readable may1st (rolloutA ''type'')
          else if q = looseFile homeRoot
            then Readable june1st [Malformed, messageLine ''type'' ''user'' ''hello again'']
          else Missing)"

definition bothFiles :: "path list" where
  "bothFiles = [datedPath homeRoot, looseFile homeRoot]"

text \<open>The same two and a third that is gone when the loop reaches it.\<close>

definition threeFiles :: "path list" where
  "threeFiles = [datedPath homeRoot, looseFile homeRoot, newYearsEvePath homeRoot]"

definition homeConfig :: config where
  "homeConfig = \<lparr>sessionsRoot = homeRoot, previewMaxMessages = 6\<rparr>"

definition entryA :: cacheEntryV1 where
  "entryA = \<lparr>entryMtimeMs = 1714560000000, entrySize = 300, summary = sessionA\<rparr>"

definition entryB :: cacheEntryV1 where
  "entryB = \<lparr>entryMtimeMs = 1714560000000, entrySize = 5, summary = sessionB\<rparr>"

definition oldCache :: cacheFileV4 where
  "oldCache =
     \<lparr>version = 4, summaryAlgoVersion = 3, cacheSessionsRoot = homeRoot,
      cachePreviewMaxMessages = 6, cacheDateTimeSettingsKey = str ''UTC'',
      entries = [datedPath homeRoot \<mapsto> entryA, looseFile homeRoot \<mapsto> entryB]\<rparr>"

text \<open>A codec for the examples that knows one cache document: every document is written
  as the text \<open>cache\<close>, and that text reads as the document.\<close>

definition oneDocument :: "cacheFileV4 \<Rightarrow> cacheFileV4 codec" where
  "oneDocument c =
     \<lparr>stringify = (\<lambda>d. str ''cache''),
      parse = (\<lambda>t. if t = str ''cache'' then Some c else None)\<rparr>"

definition storageUri :: path where
  "storageUri = [str ''home'', str ''u'', str ''.config'', str ''globalStorage'']"

text \<open>The extension's state before a refresh, with the cache file in global storage.\<close>

definition cachedWorld :: world where
  "cachedWorld = \<lparr>index = emptyIndex homeRoot,
                   globalStorage = [cacheUri storageUri \<mapsto> str ''cache''],
                   extractorLog = []\<rparr>"


definition lockedFirst :: fileSystem where
  "lockedFirst =
     (\<lambda>q. if q = looseFile homeRoot then Unreadable june1st
          else if q = datedPath homeRoot then Readable may1st (rolloutA ''type'')
          else Missing)"

section \<open>What the index is compared with\<close>

text \<open>The keys that \<open>buildIndex\<close> takes from a display date: the first three parts
  between hyphens, when there are three and none is empty.\<close>

definition dateKeys :: "jstring \<Rightarrow> (jstring \<times> jstring \<times> jstring) option" where
  "dateKeys date =
     (case splitOn 45 date of
        yyyy # mm # dd # others \<Rightarrow>
          if yyyy = [] \<or> mm = [] \<or> dd = [] then None else Some (yyyy, mm, dd)
      | _ \<Rightarrow> None)"

text \<open>A date of the form \<open>YYYY-MM-DD\<close>: four digits, two digits and two digits.\<close>

definition isYmdString :: "jstring \<Rightarrow> bool" where
  "isYmdString date =
     (length date = 10 \<and> isDigits 4 (take 4 date) \<and> date ! 4 = 45
      \<and> isDigits 2 (take 2 (drop 5 date)) \<and> date ! 7 = 45 \<and> isDigits 2 (drop 8 date))"

text \<open>Every key of the three maps has the fixed width: years of four digits, months and
  days of two, and dates of the form \<open>YYYY-MM-DD\<close>.\<close>

definition digitKeys :: "historyIndex \<Rightarrow> bool" where
  "digitKeys idx =
     ((\<forall>y months. byY idx y = Some months \<longrightarrow>
         isDigits 4 y \<and> (\<forall>m days. months m = Some days \<longrightarrow>
           isDigits 2 m \<and> (\<forall>d l. days d = Some l \<longrightarrow> isDigits 2 d)))
      \<and> (\<forall>y months. byYm idx y = Some months \<longrightarrow>
           isDigits 4 y \<and> (\<forall>m l. months m = Some l \<longrightarrow> isDigits 2 m))
      \<and> (\<forall>k l. byYmd idx k = Some l \<longrightarrow> isYmdString k))"

text \<open>The year, month and day that such a date writes, and the order of the calendar.\<close>

definition ymdOf :: "jstring \<Rightarrow> ymd" where
  "ymdOf date = \<lparr>year = int (digitsToNat (take 4 date)),
                 month = digitsToNat (take 2 (drop 5 date)),
                 day = digitsToNat (drop 8 date)\<rparr>"

definition ymdBefore :: "ymd \<Rightarrow> ymd \<Rightarrow> bool" where
  "ymdBefore v w =
     (year v < year w
      \<or> (year v = year w \<and> (month v < month w \<or> (month v = month w \<and> day v < day w))))"

subsection \<open>Files for the examples\<close>

text \<open>Beside the file of May 1st 2024 in its dated directory, a file outside the dated
  directories whose first line carries a start time in the year 999.\<close>

definition oldMetaLine :: line where
  "oldMetaLine =
     Parsed (JObj [(str ''type'', JStr (str ''session_meta'')),
                   (str ''payload'', JObj [(str ''timestamp'', JStr (str ''0999-06-01T10:00:00Z''))])])"

definition oldAndNew :: fileSystem where
  "oldAndNew =
     (\<lambda>q. if q = datedPath homeRoot then Readable may1st (rolloutA ''type'')
          else if q = looseFile homeRoot then Readable june1st [oldMetaLine]
          else Missing)"

section \<open>Facts about the text helpers and the examples\<close>

lemmas text_defs = str_def LF_def CR_def ellipsis_def isWhiteSpace_def isDigit_def
  isWordChar_def trim_def startsWith_def asciiLower_def startsWithIgnoreCase_def replaceCr_def
  normalizeWhitespace_def singleLineSnippet_def safeDisplayPath_def isRequestMarker_def
  extractMyRequestForCodex_def isUserHeading_def extractUserContentFromHeading_def
  extractUserRequestText_def

lemma relative_under: "relative root (root @ xs) = xs"
  by (induction root) auto

lemma preview_user_hello:
  "previewOfLine (messageLine ''type'' ''user'' ''hello world'') =
     Some \<lparr>role = User, msgText = str ''hello world''\<rparr>"
  by (simp add: previewOfLine_def messageLine_def messageOf_def isBoilerplateUserMessage_def
      text_defs)

lemma preview_assistant_hi:
  "previewOfLine (messageLine ''type'' ''assistant'' ''hi there'') =
     Some \<lparr>role = Assistant, msgText = str ''hi there''\<rparr>"
  by (simp add: previewOfLine_def messageLine_def messageOf_def isBoilerplateUserMessage_def
      text_defs)

lemma preview_meta_line: "previewOfLine (metaLine tag) = None"
  by (simp add: previewOfLine_def metaLine_def messageOf_def str_def)

lemma infer_dated:
  "inferYmdFromPath root (datedPath root) = Some \<lparr>year = 2024, month = 5, day = 1\<rparr>"
  by (simp add: inferYmdFromPath_def relativeParts_def relative_under datedPath_def
      isDigits_def digitsToNat_def text_defs)

lemma ymd_may1st: "ymdToString \<lparr>year = 2024, month = 5, day = 1\<rparr> = str ''2024-05-01''"
  by (simp add: ymdToString_def intToString_def pad2_def natToString.simps text_defs)

lemma snippet_hello:
  "pickSessionSnippetSource [\<lparr>role = User, msgText = str ''hello world''\<rparr>,
                             \<lparr>role = Assistant, msgText = str ''hi there''\<rparr>] =
     Some (str ''hello world'')"
  by (simp add: pickSessionSnippetSource_def isUiTitleGenerationPrompt_def text_defs)

lemma single_hello: "singleLineSnippet (str ''hello world'') 70 = str ''hello world''"
  by (simp add: text_defs)

lemma collect_rolloutA:
  "2 \<le> n \<Longrightarrow>
   collectPreview n [] (rolloutA ''type'') =
     [\<lparr>role = User, msgText = str ''hello world''\<rparr>,
      \<lparr>role = Assistant, msgText = str ''hi there''\<rparr>]"
  by (simp add: rolloutA_def preview_user_hello preview_assistant_hi preview_meta_line)

lemma tryReadSessionMeta_readable:
  "fs p = Readable st ls \<Longrightarrow> \<exists>m. tryReadSessionMeta fs p = Inr m"
  by (auto simp: tryReadSessionMeta_def readFirstLineUtf8_def split: list.splits line.splits)

subsection \<open>The extractor on each kind of file\<close>

lemma statSafe_simps [simp]:
  "fs p = Missing \<Longrightarrow> statSafe fs p = None"
  "fs p = Unreadable st \<Longrightarrow> statSafe fs p = Some st"
  "fs p = Readable st ls \<Longrightarrow> statSafe fs p = Some st"
  by (simp_all add: statSafe_def)

lemma tryReadSessionMeta_firstLineMeta:
  "fs p = Readable st ls \<Longrightarrow>
   \<exists>r. tryReadSessionMeta fs p = Inr r \<and> (case r of None \<Rightarrow> noMeta | Some m \<Rightarrow> m) = firstLineMeta ls"
  by (auto simp: tryReadSessionMeta_def readFirstLineUtf8_def firstLineMeta_def
      split: list.splits line.splits option.splits)

lemma build_readable:
  assumes "fs p = Readable st ls"
  shows "buildSessionSummary h fs root p n = Inr (Some (summaryOf h root p n st ls))"
proof -
  obtain r where r: "tryReadSessionMeta fs p = Inr r"
    and m: "(case r of None \<Rightarrow> noMeta | Some m \<Rightarrow> m) = firstLineMeta ls"
    using tryReadSessionMeta_firstLineMeta [of fs p st ls] assms by blast
  have prev: "readPreviewMessages fs p n = Inr (collectPreview n [] ls)"
    by (simp add: readPreviewMessages_def assms)
  show ?thesis
    unfolding buildSessionSummary_def summaryOf_def
    by (simp add: assms r m prev Let_def)
qed

lemma build_unreadable: "fs p = Unreadable st \<Longrightarrow> buildSessionSummary h fs root p n = Inl OpenFailed"
  by (simp add: buildSessionSummary_def tryReadSessionMeta_def readFirstLineUtf8_def)

lemma build_missing: "fs p = Missing \<Longrightarrow> buildSessionSummary h fs root p n = Inr None"
  by (simp add: buildSessionSummary_def)

lemma build_Some_readable:
  assumes "buildSessionSummary h fs root p n = Inr (Some s)"
  shows "\<exists>st ls. fs p = Readable st ls \<and> s = summaryOf h root p n st ls"
proof (cases "fs p")
  case Missing then show ?thesis using assms by (simp add: build_missing)
next
  case (Unreadable st) then show ?thesis using assms by (simp add: build_unreadable)
next
  case (Readable st ls) then show ?thesis using assms by (simp add: build_readable)
qed

subsection \<open>Digits and dates\<close>





lemma natToString_digit: "n < 10 \<Longrightarrow> natToString n = [48 + n]"
  by (simp add: natToString.simps)

lemma natToString_step: "r < 10 \<Longrightarrow> 0 < k \<Longrightarrow> natToString (10 * k + r) = natToString k @ [48 + r]"
  by (subst natToString.simps) simp







lemma length_natToString_small: "n < 10 \<Longrightarrow> length (natToString n) = 1"
  by (simp add: natToString_digit)

lemma pad2_shape:
  assumes "n < 100"
  shows "isDigits 2 (pad2 n)"
proof (cases "n < 10")
  case True
  then show ?thesis
    by (simp add: pad2_def natToString_digit isDigits_def isDigit_def)
next
  case False
  define k where "k = n div 10"
  define r where "r = n mod 10"
  have n: "n = 10 * k + r" and r: "r < 10" and k: "0 < k" "k < 10"
    using False assms by (auto simp: k_def r_def)
  have "natToString n = natToString k @ [48 + r]"
    unfolding n using r k by (intro natToString_step) simp_all
  then have "natToString n = [48 + k, 48 + r]"
    using k by (simp add: natToString_digit)
  then show ?thesis
    using k r by (simp add: pad2_def isDigits_def isDigit_def)
qed

lemma startLocalOf_noMeta: "startLocalOf h noMeta = None"
  by (simp add: startLocalOf_def noMeta_def)

lemma firstLineMeta_unusable:
  "firstLineMeta [] = noMeta"
  "firstLineMeta (Blank # rest) = noMeta"
  "firstLineMeta (Malformed # rest) = noMeta"
  "sessionMetaOf obj = None \<Longrightarrow> firstLineMeta (Parsed obj # rest) = noMeta"
  by (simp_all add: firstLineMeta_def)

lemma infer_loose: "inferYmdFromPath root (looseFile root) = None"
  by (simp add: inferYmdFromPath_def relativeParts_def relative_under looseFile_def)

lemma start_rolloutA: "startLocalOf utcHost (firstLineMeta (rolloutA ''type'')) = Some 1714557600000"
  by code_simp


lemma date_of_june1st: "ymdToString (toYmdLocal utcHost (mtimeMs june1st)) = str ''2024-06-01''"
  by code_simp

lemma label_of_start: "pad2 (getHours utcHost 1714557600000) @ str '':'' @ pad2 (getMinutes utcHost 1714557600000) = str ''10:00''"
  by code_simp

lemma collectPreview_full: "n \<le> length acc \<Longrightarrow> collectPreview n acc ls = acc"
  by (cases ls) simp_all

lemma collectPreview_skips_malformed:
  "collectPreview n acc (filter (\<lambda>l. l \<noteq> Malformed) ls) = collectPreview n acc ls"
  by (induction ls arbitrary: acc)
     (auto simp: previewOfLine_def collectPreview_full split: option.splits)

section \<open>Facts about the search\<close>

subsection \<open>The token\<close>

lemma uninterrupted_simps [simp]:
  "token (uninterrupted ps) n = False"
  "maxResults (uninterrupted ps) = maxResults ps"
  "sessions (uninterrupted ps) = sessions ps"
  "matchAt h (uninterrupted ps) = matchAt h ps"
  "makeHit (uninterrupted ps) = makeHit ps"
  by (simp_all add: uninterrupted_def matchAt_def makeHit_def fun_eq_iff)

lemma quiet_here: "quiet t a b \<Longrightarrow> a < b \<Longrightarrow> \<not> t a"
  by (simp add: quiet_def)

lemma quiet_Suc: "quiet t a b \<Longrightarrow> quiet t (Suc a) b"
  by (simp add: quiet_def)

lemma quiet_later:
  assumes "\<not> quiet t a b" and "\<not> t a"
  shows "\<not> quiet t (Suc a) b"
proof -
  obtain n where n: "a \<le> n" "n < b" "t n"
    using assms(1) by (auto simp: quiet_def)
  then have "n \<noteq> a"
    using assms(2) by auto
  then have "Suc a \<le> n"
    using n(1) by simp
  then show ?thesis
    using n by (auto simp: quiet_def)
qed

lemma quiet_empty [simp]: "quiet t a a"
  by (auto simp: quiet_def)

lemma quiet_join: "quiet t a b \<Longrightarrow> quiet t b c \<Longrightarrow> quiet t a c"
  unfolding quiet_def by (meson not_le)

lemma quiet_prefix: "quiet t a c \<Longrightarrow> b \<le> c \<Longrightarrow> quiet t a b"
  unfolding quiet_def by (meson less_le_trans)

lemma quiet_suffix: "quiet t a c \<Longrightarrow> a \<le> b \<Longrightarrow> quiet t b c"
  unfolding quiet_def by (meson order_trans)

text \<open>A turn of the inner loop reads the token once.\<close>

lemma scanLine_Stop_checks: "scanLine h ps s k st l = Stop st' \<Longrightarrow> checks st' = Suc (checks st)"
  by (auto simp: scanLine_def Let_def split: if_splits option.splits)

lemma scanLine_Continue_checks:
  "scanLine h ps s k st l = Continue k' st' \<Longrightarrow> checks st' = Suc (checks st)"
  by (auto simp: scanLine_def Let_def split: if_splits option.splits)

lemma scanLine_Continue_cancelled:
  "scanLine h ps s k st l = Continue k' st' \<Longrightarrow> cancelled st' = cancelled st \<and> \<not> token ps (checks st)"
  by (auto simp: scanLine_def Let_def split: if_splits option.splits)

lemma scanLine_Stop_cancelled:
  "scanLine h ps s k st l = Stop st' \<Longrightarrow> cancelled st' = (cancelled st \<or> token ps (checks st))"
  by (auto simp: scanLine_def Let_def split: if_splits option.splits)

lemma scanLine_uninterrupted:
  "\<not> token ps (checks st) \<Longrightarrow> scanLine h (uninterrupted ps) s k st l = scanLine h ps s k st l"
  by (auto simp: scanLine_def Let_def split: option.splits)

lemma scanLine_cancel:
  "token ps (checks st) \<Longrightarrow>
   scanLine h ps s k st l = Stop (st\<lparr>checks := Suc (checks st), cancelled := True\<rparr>)"
  by (simp add: scanLine_def)

lemma scanLines_checks_mono: "checks st \<le> checks (scanLines h ps s k st ls)"
proof (induction ls arbitrary: k st)
  case Nil
  then show ?case by simp
next
  case (Cons l ls)
  show ?case
  proof (cases "scanLine h ps s k st l")
    case (Stop st')
    then show ?thesis
      using scanLine_Stop_checks [OF Stop] by simp
  next
    case (Continue k' st')
    then show ?thesis
      using scanLine_Continue_checks [OF Continue] Cons.IH [where st = st' and k = k'] by simp
  qed
qed

lemma scanLines_Cons_checks: "checks st < checks (scanLines h ps s k st (l # ls))"
proof (cases "scanLine h ps s k st l")
  case (Stop st')
  then show ?thesis
    using scanLine_Stop_checks [OF Stop] by simp
next
  case (Continue k' st')
  then show ?thesis
    using scanLine_Continue_checks [OF Continue] scanLines_checks_mono [of st' h ps s k' ls] by simp
qed

lemma scanLines_uninterrupted_cancelled:
  "cancelled (scanLines h (uninterrupted ps) s k st ls) = cancelled st"
proof (induction ls arbitrary: k st)
  case Nil
  then show ?case by simp
next
  case (Cons l ls)
  show ?case
  proof (cases "scanLine h (uninterrupted ps) s k st l")
    case (Stop st')
    then show ?thesis
      using scanLine_Stop_cancelled [OF Stop] by simp
  next
    case (Continue k' st')
    then show ?thesis
      using scanLine_Continue_cancelled [OF Continue] Cons.IH [where st = st' and k = k'] by simp
  qed
qed

text \<open>While the token stays unset over the reads that the uninterrupted scan makes, the
  scan is the uninterrupted one; if it is set at one of them, the scan is cancelled.\<close>

lemma scanLines_agree:
  "quiet (token ps) (checks st) (checks (scanLines h (uninterrupted ps) s k st ls)) \<Longrightarrow>
   scanLines h ps s k st ls = scanLines h (uninterrupted ps) s k st ls"
proof (induction ls arbitrary: k st)
  case Nil
  then show ?case by simp
next
  case (Cons l ls)
  have first: "\<not> token ps (checks st)"
    using quiet_here [OF Cons.prems scanLines_Cons_checks] .
  have same: "scanLine h (uninterrupted ps) s k st l = scanLine h ps s k st l"
    using first by (rule scanLine_uninterrupted)
  show ?case
  proof (cases "scanLine h ps s k st l")
    case (Stop st')
    then show ?thesis by (simp add: same)
  next
    case (Continue k' st')
    have "quiet (token ps) (checks st') (checks (scanLines h (uninterrupted ps) s k' st' ls))"
      using Cons.prems quiet_Suc [of "token ps" "checks st"] scanLine_Continue_checks [OF Continue]
      by (simp add: same Continue)
    then show ?thesis
      using Cons.IH [where st = st' and k = k'] by (simp add: same Continue)
  qed
qed

lemma scanLines_interrupted:
  "\<not> quiet (token ps) (checks st) (checks (scanLines h (uninterrupted ps) s k st ls)) \<Longrightarrow>
   cancelled (scanLines h ps s k st ls)"
proof (induction ls arbitrary: k st)
  case Nil
  then show ?case by simp
next
  case (Cons l ls)
  show ?case
  proof (cases "token ps (checks st)")
    case True
    then show ?thesis by (simp add: scanLine_cancel)
  next
    case False
    have same: "scanLine h (uninterrupted ps) s k st l = scanLine h ps s k st l"
      using False by (rule scanLine_uninterrupted)
    show ?thesis
    proof (cases "scanLine h ps s k st l")
      case (Stop st')
      have "checks st' = Suc (checks st)"
        using scanLine_Stop_checks [OF Stop] .
      then have "quiet (token ps) (checks st) (checks st')"
        using False by (auto simp: quiet_def less_Suc_eq_le)
      then show ?thesis
        using Cons.prems by (simp add: same Stop)
    next
      case (Continue k' st')
      have "\<not> quiet (token ps) (checks st') (checks (scanLines h (uninterrupted ps) s k' st' ls))"
        using Cons.prems quiet_later [of "token ps" "checks st"] False
          scanLine_Continue_checks [OF Continue]
        by (auto simp: same Continue)
      then show ?thesis
        using Cons.IH [where st = st' and k = k'] by (simp add: Continue)
    qed
  qed
qed

lemma startFile_simps [simp]:
  "checks (startFile ps i s st) = Suc (checks st)"
  "cancelled (startFile ps i s st) = cancelled st"
  "searchFailure (startFile ps i s st) = searchFailure st"
  "startFile (uninterrupted ps) i s st = startFile ps i s st"
  by (simp_all add: startFile_def)

text \<open>The outer loop at a candidate: the three ways on.\<close>

lemma searchFiles_cancel:
  "token ps (checks st) \<Longrightarrow>
   searchFiles h c ps i st (s # ss) = st\<lparr>checks := Suc (checks st), cancelled := True\<rparr>"
  by simp

lemma searchFiles_unopened:
  "\<not> token ps (checks st) \<Longrightarrow> c (fsPath s) = None \<Longrightarrow>
   searchFiles h c ps i st (s # ss) = (startFile ps i s st)\<lparr>searchFailure := Some OpenFailed\<rparr>"
  by simp

lemma searchFiles_opened:
  "\<not> token ps (checks st) \<Longrightarrow> c (fsPath s) = Some ls \<Longrightarrow>
   searchFiles h c ps i st (s # ss) =
     (if cancelled (scanLines h ps s 0 (startFile ps i s st) ls)
      then scanLines h ps s 0 (startFile ps i s st) ls
      else searchFiles h c ps (i + 1) (scanLines h ps s 0 (startFile ps i s st) ls) ss)"
  by (simp add: Let_def)

lemma scanLines_kept_running:
  assumes "quiet (token ps) (checks st) (checks (scanLines h (uninterrupted ps) s k st ls))"
  shows "cancelled (scanLines h ps s k st ls) = cancelled st"
  using scanLines_agree [OF assms] scanLines_uninterrupted_cancelled [of h ps s k st ls] by simp

lemma searchFiles_checks_mono: "checks st \<le> checks (searchFiles h c ps i st ss)"
proof (induction ss arbitrary: i st)
  case Nil
  then show ?case by simp
next
  case (Cons s ss)
  show ?case
  proof (cases "c (fsPath s)")
    case None
    then show ?thesis by simp
  next
    case (Some ls)
    define st1 where "st1 = startFile ps i s st"
    have "checks st \<le> checks (scanLines h ps s 0 st1 ls)"
      using scanLines_checks_mono [of st1 h ps s 0 ls] by (simp add: st1_def)
    moreover have "checks (scanLines h ps s 0 st1 ls)
        \<le> checks (searchFiles h c ps (i + 1) (scanLines h ps s 0 st1 ls) ss)"
      by (rule Cons.IH)
    ultimately show ?thesis
      by (auto simp: Let_def st1_def Some)
  qed
qed

lemma searchFiles_Cons_checks: "checks st < checks (searchFiles h c ps i st (s # ss))"
proof (cases "c (fsPath s)")
  case None
  then show ?thesis by simp
next
  case (Some ls)
  define st1 where "st1 = startFile ps i s st"
  have "Suc (checks st) \<le> checks (scanLines h ps s 0 st1 ls)"
    using scanLines_checks_mono [of st1 h ps s 0 ls] by (simp add: st1_def)
  moreover have "checks (scanLines h ps s 0 st1 ls)
      \<le> checks (searchFiles h c ps (i + 1) (scanLines h ps s 0 st1 ls) ss)"
    by (rule searchFiles_checks_mono)
  ultimately show ?thesis
    by (auto simp: Let_def st1_def Some)
qed

lemma searchFiles_uninterrupted_cancelled:
  "cancelled (searchFiles h c (uninterrupted ps) i st ss) = cancelled st"
  by (induction ss arbitrary: i st)
     (simp_all add: Let_def scanLines_uninterrupted_cancelled split: option.splits)

lemma searchFiles_agree:
  assumes "\<not> cancelled st"
    and "quiet (token ps) (checks st) (checks (searchFiles h c (uninterrupted ps) i st ss))"
  shows "searchFiles h c ps i st ss = searchFiles h c (uninterrupted ps) i st ss"
  using assms
proof (induction ss arbitrary: i st)
  case Nil
  then show ?case by simp
next
  case (Cons s ss)
  have first: "\<not> token ps (checks st)"
    using quiet_here [OF Cons.prems(2) searchFiles_Cons_checks] .
  show ?case
  proof (cases "c (fsPath s)")
    case None
    then show ?thesis using first by simp
  next
    case (Some ls)
    define st1 where "st1 = startFile ps i s st"
    define stU where "stU = scanLines h (uninterrupted ps) s 0 st1 ls"
    define final where "final = searchFiles h c (uninterrupted ps) (i + 1) stU ss"
    have running: "\<not> cancelled stU"
      using Cons.prems(1) by (simp add: stU_def st1_def scanLines_uninterrupted_cancelled)
    have unfoldU: "searchFiles h c (uninterrupted ps) i st (s # ss) = final"
      using running by (simp add: Let_def final_def stU_def st1_def Some)
    have whole: "quiet (token ps) (checks st) (checks final)"
      using Cons.prems(2) unfolding unfoldU .
    have "checks st < checks st1"
      by (simp add: st1_def)
    moreover have "checks st1 \<le> checks stU"
      unfolding stU_def by (rule scanLines_checks_mono)
    moreover have "checks stU \<le> checks final"
      unfolding final_def by (rule searchFiles_checks_mono)
    ultimately have order:
      "checks st < checks st1" "checks st1 \<le> checks stU" "checks stU \<le> checks final"
      by blast+
    have "quiet (token ps) (checks st1) (checks stU)"
      using whole order by (meson quiet_prefix quiet_suffix less_imp_le)
    then have scan: "scanLines h ps s 0 st1 ls = stU"
      unfolding stU_def by (rule scanLines_agree)
    have "quiet (token ps) (checks stU) (checks final)"
      using whole order by (meson quiet_suffix less_imp_le order_trans)
    then have rest: "searchFiles h c ps (i + 1) stU ss = final"
      unfolding final_def using running by (intro Cons.IH) simp_all
    have left: "searchFiles h c ps i st (s # ss) = final"
      unfolding searchFiles_opened [where c = c and s = s, OF first Some]
      using running scan rest by (simp flip: st1_def)
    show ?thesis
      unfolding unfoldU by (rule left)
  qed
qed

lemma searchFiles_interrupted:
  assumes "\<not> cancelled st"
    and "\<not> quiet (token ps) (checks st) (checks (searchFiles h c (uninterrupted ps) i st ss))"
  shows "cancelled (searchFiles h c ps i st ss)"
  using assms
proof (induction ss arbitrary: i st)
  case Nil
  then show ?case by simp
next
  case (Cons s ss)
  show ?case
  proof (cases "token ps (checks st)")
    case True
    then show ?thesis by simp
  next
    case False
    show ?thesis
    proof (cases "c (fsPath s)")
      case None
      have "quiet (token ps) (checks st) (Suc (checks st))"
        using False by (auto simp: quiet_def less_Suc_eq_le)
      then show ?thesis
        using Cons.prems(2) by (simp add: None)
    next
      case (Some ls)
      define st1 where "st1 = startFile ps i s st"
      define stU where "stU = scanLines h (uninterrupted ps) s 0 st1 ls"
      define final where "final = searchFiles h c (uninterrupted ps) (i + 1) stU ss"
      have running: "\<not> cancelled stU"
        using Cons.prems(1) by (simp add: stU_def st1_def scanLines_uninterrupted_cancelled)
      have unfoldU: "searchFiles h c (uninterrupted ps) i st (s # ss) = final"
        using running by (simp add: Let_def final_def stU_def st1_def Some)
      have whole: "\<not> quiet (token ps) (checks st) (checks final)"
        using Cons.prems(2) unfolding unfoldU .
      have after: "\<not> quiet (token ps) (checks st1) (checks final)"
        using quiet_later [OF whole False] by (simp add: st1_def)
      show ?thesis
      proof (cases "quiet (token ps) (checks st1) (checks stU)")
        case True
        then have scan: "scanLines h ps s 0 st1 ls = stU"
          unfolding stU_def by (rule scanLines_agree)
        have "\<not> quiet (token ps) (checks stU) (checks final)"
          using after True quiet_join by blast
        then have "cancelled (searchFiles h c ps (i + 1) stU ss)"
          unfolding final_def using running by (intro Cons.IH) simp_all
        then show ?thesis
          unfolding searchFiles_opened [where c = c and s = s, OF False Some]
          using running scan by (simp flip: st1_def)
      next
        case quietFalse: False
        then have "cancelled (scanLines h ps s 0 st1 ls)"
          unfolding stU_def by (rule scanLines_interrupted)
        then show ?thesis
          unfolding searchFiles_opened [where c = c and s = s, OF False Some]
          by (simp flip: st1_def)
      qed
    qed
  qed
qed

text \<open>The whole run: it is the uninterrupted one while the token stays unset over the
  reads that the uninterrupted run makes, and is cancelled otherwise.\<close>

lemma searchRun_uninterrupted:
  "searchRun h c (uninterrupted ps) = searchFiles h c (uninterrupted ps) 0 searchStart (sessions ps)"
  by (simp add: searchRun_def)

lemma searchRun_quiet:
  assumes "quiet (token ps) 0 (checks (searchRun h c (uninterrupted ps)))"
  shows "searchRun h c ps = searchRun h c (uninterrupted ps)" and "\<not> cancelled (searchRun h c ps)"
proof -
  have start: "\<not> cancelled searchStart" "checks searchStart = 0"
    by (simp_all add: searchStart_def)
  show same: "searchRun h c ps = searchRun h c (uninterrupted ps)"
    using assms unfolding searchRun_uninterrupted unfolding searchRun_def using start
    by (intro searchFiles_agree) simp_all
  show "\<not> cancelled (searchRun h c ps)"
    unfolding same using start
    by (simp add: searchRun_uninterrupted searchFiles_uninterrupted_cancelled)
qed

lemma searchRun_interrupted:
  assumes "\<not> quiet (token ps) 0 (checks (searchRun h c (uninterrupted ps)))"
  shows "cancelled (searchRun h c ps)"
proof -
  have start: "\<not> cancelled searchStart" "checks searchStart = 0"
    by (simp_all add: searchStart_def)
  show ?thesis
    using assms unfolding searchRun_uninterrupted unfolding searchRun_def using start
    by (intro searchFiles_interrupted) simp_all
qed

lemma searchSessions_None: "searchSessions h c ps = Inr None \<longleftrightarrow> cancelled (searchRun h c ps)"
  by (simp add: searchSessions_def Let_def split: option.splits)

lemma searchSessions_Some:
  "searchSessions h c ps = Inr (Some r) \<longleftrightarrow>
     \<not> cancelled (searchRun h c ps) \<and> searchFailure (searchRun h c ps) = None
     \<and> r = \<lparr>resultTotalHits = totalHits (searchRun h c ps),
              resultSessions =
                map (\<lambda>e. e\<lparr>hits := jsSort compareHits (hits e)\<rparr>)
                    (jsSort compareSessionHits (map snd (bySession (searchRun h c ps))))\<rparr>"
  by (auto simp: searchSessions_def Let_def split: option.splits)

lemma searchSessions_failed:
  "searchSessions h c ps = Inl e \<longleftrightarrow>
     \<not> cancelled (searchRun h c ps) \<and> searchFailure (searchRun h c ps) = Some e"
  by (auto simp: searchSessions_def Let_def split: option.splits)

subsection \<open>What an uninterrupted scan collects\<close>

lemma fileHits_uninterrupted [simp]: "fileHits h (uninterrupted ps) k ls = fileHits h ps k ls"
  by (induction ls arbitrary: k) (auto split: option.splits)

lemma addHits_Nil [simp]: "addHits k s [] al = al"
  by (simp add: addHits_def)

lemma addHits_Cons [simp]: "addHits k s (hit # hs) al = addHits k s hs (addHit k s hit al)"
  by (simp add: addHits_def)

text \<open>With the token never set, a scan pushes the first hits of the file that fit under
  the cap, and changes nothing else but the number of reads.\<close>

lemma scanLines_collects:
  assumes never: "\<forall>n. \<not> token ps n"
  shows "bySession (scanLines h ps s k st ls) =
           addHits (cacheKey s) s (take (maxResults ps - totalHits st) (fileHits h ps k ls)) (bySession st)
       \<and> totalHits (scanLines h ps s k st ls) =
           totalHits st + length (take (maxResults ps - totalHits st) (fileHits h ps k ls))
       \<and> events (scanLines h ps s k st ls) = events st
       \<and> cancelled (scanLines h ps s k st ls) = cancelled st
       \<and> searchFailure (scanLines h ps s k st ls) = searchFailure st"
proof (induction ls arbitrary: k st)
  case Nil
  then show ?case by simp
next
  case (Cons l ls)
  show ?case
  proof (cases "maxResults ps \<le> totalHits st")
    case True
    then show ?thesis
      using never by (simp add: scanLine_def)
  next
    case room: False
    show ?thesis
    proof (cases "searchableMessage l")
      case None
      then show ?thesis
        using never room Cons.IH [where k = k and st = "st\<lparr>checks := Suc (checks st)\<rparr>"]
        by (simp add: scanLine_def)
    next
      case (Some m)
      obtain r body where m: "m = (r, body)"
        by (cases m)
      show ?thesis
      proof (cases "matchAt h ps body")
        case None
        then show ?thesis
          using never room Some m
            Cons.IH [where k = "Suc k" and st = "st\<lparr>checks := Suc (checks st)\<rparr>"]
          by (simp add: scanLine_def)
      next
        case (Some hitAt)
        define st2 where "st2 = st\<lparr>checks := Suc (checks st),
            bySession := addHit (cacheKey s) s (makeHit ps (Suc k) r body hitAt) (bySession st),
            totalHits := Suc (totalHits st)\<rparr>"
        have hitsHere: "fileHits h ps k (l # ls) =
            makeHit ps (Suc k) r body hitAt # fileHits h ps (Suc k) ls"
          using \<open>searchableMessage l = Some m\<close> m Some by simp
        have roomLeft: "maxResults ps - totalHits st = Suc (maxResults ps - Suc (totalHits st))"
          using room by simp
        show ?thesis
        proof (cases "maxResults ps \<le> Suc (totalHits st)")
          case True
          then have "scanLines h ps s k st (l # ls) = st2"
            using never room \<open>searchableMessage l = Some m\<close> m Some
            by (simp add: scanLine_def st2_def)
          moreover have "maxResults ps - Suc (totalHits st) = 0"
            using True by simp
          ultimately show ?thesis
            unfolding hitsHere roomLeft by (simp add: st2_def)
        next
          case False
          then have "scanLines h ps s k st (l # ls) = scanLines h ps s (Suc k) st2 ls"
            using never room \<open>searchableMessage l = Some m\<close> m Some
            by (simp add: scanLine_def st2_def)
          then show ?thesis
            unfolding hitsHere roomLeft
            using Cons.IH [where k = "Suc k" and st = st2]
            by (simp add: st2_def)
        qed
      qed
    qed
  qed
qed

subsection \<open>Sorting\<close>

lemma set_insertBy [simp]: "set (insertBy cmp x ys) = insert x (set ys)"
  by (induction ys) auto

lemma length_insertBy [simp]: "length (insertBy cmp x ys) = Suc (length ys)"
  by (induction ys) auto

lemma set_jsSort [simp]: "set (jsSort cmp xs) = set xs"
  by (induction xs) (simp_all add: jsSort_def)

lemma length_jsSort [simp]: "length (jsSort cmp xs) = length xs"
  by (induction xs) (simp_all add: jsSort_def)

lemma jsSort_Nil [simp]: "jsSort cmp [] = []"
  by (simp add: jsSort_def)

lemma jsSort_Cons: "jsSort cmp (x # xs) = insertBy cmp x (jsSort cmp xs)"
  by (simp add: jsSort_def)

lemma sorted_insertBy:
  assumes "keyComparator cmp" and "sorted_wrt (\<lambda>a b. cmp a b \<le> 0) ys"
  shows "sorted_wrt (\<lambda>a b. cmp a b \<le> 0) (insertBy cmp x ys)"
  using assms(2)
proof (induction ys)
  case Nil
  then show ?case by simp
next
  case (Cons y ys)
  have total: "cmp x y \<le> 0 \<or> cmp y x \<le> 0"
    and trans: "\<And>a b c. cmp a b \<le> 0 \<Longrightarrow> cmp b c \<le> 0 \<Longrightarrow> cmp a c \<le> 0"
    using assms(1) unfolding keyComparator_def by blast+
  show ?case
  proof (cases "cmp x y \<le> 0")
    case True
    then have "\<forall>z\<in>set ys. cmp x z \<le> 0"
      using Cons.prems trans by auto
    then show ?thesis
      using True Cons.prems by simp
  next
    case False
    then have "cmp y x \<le> 0"
      using total by blast
    then show ?thesis
      using False Cons by auto
  qed
qed

lemma sorted_jsSort:
  "keyComparator cmp \<Longrightarrow> sorted_wrt (\<lambda>a b. cmp a b \<le> 0) (jsSort cmp xs)"
  by (induction xs) (simp_all add: jsSort_Cons sorted_insertBy)

lemma insertBy_front: "xs = [] \<or> cmp x (hd xs) \<le> 0 \<Longrightarrow> insertBy cmp x xs = x # xs"
  by (cases xs) auto

lemma jsSort_sorted_id:
  "sorted_wrt (\<lambda>a b. cmp a b \<le> 0) xs \<Longrightarrow> jsSort cmp xs = xs"
proof (induction xs)
  case Nil
  then show ?case by simp
next
  case (Cons x xs)
  then have "jsSort cmp xs = xs"
    by simp
  moreover have "xs = [] \<or> cmp x (hd xs) \<le> 0"
    using Cons.prems by (cases xs) auto
  ultimately show ?case
    by (simp add: jsSort_Cons insertBy_front)
qed

lemma keyComparator_compareHits: "keyComparator compareHits"
  by (auto simp: keyComparator_def compareHits_def)

subsection \<open>The map of the search\<close>

lemma addHit_fresh:
  "k \<notin> fst ` set al \<Longrightarrow> addHit k s hit al = al @ [(k, \<lparr>session = s, hits = [hit]\<rparr>)]"
  by (induction al) auto

lemma addHit_last:
  "k \<notin> fst ` set al \<Longrightarrow> addHit k s hit (al @ [(k, e)]) = al @ [(k, e\<lparr>hits := hits e @ [hit]\<rparr>)]"
  by (induction al) auto

lemma addHits_last:
  "k \<notin> fst ` set al \<Longrightarrow> addHits k s hs (al @ [(k, e)]) = al @ [(k, e\<lparr>hits := hits e @ hs\<rparr>)]"
  by (induction hs arbitrary: e) (simp_all add: addHit_last)

lemma addHits_fresh:
  "k \<notin> fst ` set al \<Longrightarrow>
   addHits k s hs al = (if hs = [] then al else al @ [(k, \<lparr>session = s, hits = hs\<rparr>)])"
  by (cases hs) (simp_all add: addHit_fresh addHits_last)

subsection \<open>Hits of a file\<close>

lemma fileHits_above: "x \<in> set (fileHits h ps k ls) \<Longrightarrow> k < messageIndex x"
proof (induction ls arbitrary: k)
  case Nil
  then show ?case by simp
next
  case (Cons l ls)
  have later: "Suc k < messageIndex x" if "x \<in> set (fileHits h ps (Suc k) ls)"
    using Cons.IH [OF that] .
  show ?case
    using Cons.prems Cons.IH [of k] later
    by (auto simp: makeHit_def split: option.splits)
qed

lemma fileHits_ascending:
  "sorted_wrt (\<lambda>a b. messageIndex a < messageIndex b) (fileHits h ps k ls)"
proof (induction ls arbitrary: k)
  case Nil
  then show ?case by simp
next
  case (Cons l ls)
  have above: "\<forall>x\<in>set (fileHits h ps (Suc k) ls). Suc k < messageIndex x"
    using fileHits_above by blast
  show ?case
    using Cons.IH above by (auto simp: makeHit_def split: option.splits)
qed

lemma fileHits_append:
  "fileHits h ps k (xs @ ys) =
     fileHits h ps k xs @ fileHits h ps (k + length (List.map_filter searchableMessage xs)) ys"
  by (induction xs arbitrary: k) (auto split: option.splits)

lemma openedFiles_append [simp]: "openedFiles (xs @ ys) = openedFiles xs @ openedFiles ys"
  by (simp add: openedFiles_def List.map_filter_def)

lemma openedFiles_start [simp]: "openedFiles [Report i n, Opened p] = [p]"
  by (simp add: openedFiles_def List.map_filter_def)

lemma allHits_Cons:
  "allHits h c ps (s # ss) = fileHits h ps 0 (c (fsPath s)) @ allHits h c ps ss"
  by (simp add: allHits_def)

lemma linesOf_Some: "c p = Some ls \<Longrightarrow> linesOf c p = ls"
  by (simp add: linesOf_def)

text \<open>With the token never set and every candidate's file opening, the outer loop opens
  every candidate and counts hits up to the cap.\<close>

lemma searchFiles_collects:
  assumes never: "\<forall>n. \<not> token ps n" and "\<not> cancelled st" and "totalHits st \<le> maxResults ps"
    and "\<forall>s\<in>set ss. c (fsPath s) \<noteq> None"
  shows "totalHits (searchFiles h c ps i st ss) =
           min (maxResults ps) (totalHits st + length (allHits h (linesOf c) ps ss))
       \<and> openedFiles (events (searchFiles h c ps i st ss)) =
           openedFiles (events st) @ map fsPath ss
       \<and> \<not> cancelled (searchFiles h c ps i st ss)
       \<and> searchFailure (searchFiles h c ps i st ss) = searchFailure st"
  using assms(2,3,4)
proof (induction ss arbitrary: i st)
  case Nil
  then show ?case by (simp add: allHits_def)
next
  case (Cons s ss)
  from Cons.prems(3) obtain ls where ls: "c (fsPath s) = Some ls" by auto
  have lines: "linesOf c (fsPath s) = ls" using ls by (rule linesOf_Some)
  define hs where "hs = take (maxResults ps - totalHits st) (fileHits h ps 0 ls)"
  define st' where "st' = scanLines h ps s 0 (startFile ps i s st) ls"
  have scan: "totalHits st' = totalHits st + length hs" "events st' = events (startFile ps i s st)"
    "cancelled st' = cancelled st" "searchFailure st' = searchFailure st"
    using scanLines_collects [OF never, of h s 0 "startFile ps i s st" ls]
    by (simp_all add: st'_def hs_def startFile_def)
  have running: "\<not> cancelled st'" and below: "totalHits st' \<le> maxResults ps"
    using Cons.prems scan by (auto simp: hs_def)
  have opens: "\<forall>s\<in>set ss. c (fsPath s) \<noteq> None"
    using Cons.prems(3) by simp
  have step: "searchFiles h c ps i st (s # ss) = searchFiles h c ps (i + 1) st' ss"
    using never running by (simp add: Let_def st'_def ls)
  have count: "min (maxResults ps) (totalHits st' + length (allHits h (linesOf c) ps ss)) =
      min (maxResults ps) (totalHits st + length (allHits h (linesOf c) ps (s # ss)))"
    using Cons.prems(2) by (auto simp: scan allHits_Cons lines hs_def min_def)
  show ?case
    unfolding step
    using Cons.IH [OF running below opens, of "i + 1"] count
    by (simp add: scan startFile_def)
qed

text \<open>With the token never set, the run ends in the error of the first candidate whose
  file does not open, and in no error when there is none.\<close>

lemma searchFiles_fails:
  assumes never: "\<forall>n. \<not> token ps n" and "\<not> cancelled st"
    and "\<exists>s\<in>set ss. c (fsPath s) = None"
  shows "searchFailure (searchFiles h c ps i st ss) = Some OpenFailed
       \<and> \<not> cancelled (searchFiles h c ps i st ss)"
  using assms(2,3)
proof (induction ss arbitrary: i st)
  case Nil
  then show ?case by simp
next
  case (Cons s ss)
  show ?case
  proof (cases "c (fsPath s)")
    case None
    then show ?thesis using never Cons.prems(1) by simp
  next
    case (Some ls)
    define st' where "st' = scanLines h ps s 0 (startFile ps i s st) ls"
    have running: "\<not> cancelled st'"
      using scanLines_collects [OF never, of h s 0 "startFile ps i s st" ls] Cons.prems(1)
      by (simp add: st'_def)
    have step: "searchFiles h c ps i st (s # ss) = searchFiles h c ps (i + 1) st' ss"
      using never running by (simp add: Let_def st'_def Some)
    have "\<exists>s\<in>set ss. c (fsPath s) = None"
      using Cons.prems(2) Some by auto
    then show ?thesis
      unfolding step using running by (intro Cons.IH)
  qed
qed

lemma collected_uninterrupted [simp]:
  "collected h c (uninterrupted ps) room ss = collected h c ps room ss"
  by (induction ss arbitrary: room) (simp_all add: Let_def)

lemma searchFiles_entries:
  assumes never: "\<forall>n. \<not> token ps n" and "\<not> cancelled st" and "totalHits st \<le> maxResults ps"
    and "distinct (map cacheKey ss)" and "cacheKey ` set ss \<inter> fst ` set (bySession st) = {}"
    and "\<forall>s\<in>set ss. c (fsPath s) \<noteq> None"
  shows "map snd (bySession (searchFiles h c ps i st ss)) =
           map snd (bySession st) @ collected h (linesOf c) ps (maxResults ps - totalHits st) ss"
  using assms(2-6)
proof (induction ss arbitrary: i st)
  case Nil
  then show ?case by simp
next
  case (Cons s ss)
  from Cons.prems(5) obtain ls where ls: "c (fsPath s) = Some ls" by auto
  have lines: "linesOf c (fsPath s) = ls" using ls by (rule linesOf_Some)
  define hs where "hs = take (maxResults ps - totalHits st) (fileHits h ps 0 ls)"
  define st' where "st' = scanLines h ps s 0 (startFile ps i s st) ls"
  have fresh: "cacheKey s \<notin> fst ` set (bySession st)"
    using Cons.prems(4) by auto
  have scan: "totalHits st' = totalHits st + length hs"
    "cancelled st' = cancelled st"
    "bySession st' = addHits (cacheKey s) s hs (bySession st)"
    using scanLines_collects [OF never, of h s 0 "startFile ps i s st" ls]
    by (simp_all add: st'_def hs_def startFile_def)
  have entries: "bySession st' =
      (if hs = [] then bySession st else bySession st @ [(cacheKey s, \<lparr>session = s, hits = hs\<rparr>)])"
    unfolding scan(3) using fresh by (rule addHits_fresh)
  have running: "\<not> cancelled st'" and below: "totalHits st' \<le> maxResults ps"
    using Cons.prems scan by (auto simp: hs_def)
  have opens: "\<forall>s\<in>set ss. c (fsPath s) \<noteq> None"
    using Cons.prems(5) by simp
  have step: "searchFiles h c ps i st (s # ss) = searchFiles h c ps (i + 1) st' ss"
    using never running by (simp add: Let_def st'_def ls)
  have keys: "cacheKey ` set ss \<inter> fst ` set (bySession st') = {}"
    using Cons.prems(3,4) by (auto simp: entries)
  have room: "maxResults ps - totalHits st' = maxResults ps - totalHits st - length hs"
    by (simp add: scan)
  have "map snd (bySession (searchFiles h c ps (i + 1) st' ss)) =
      map snd (bySession st') @ collected h (linesOf c) ps (maxResults ps - totalHits st') ss"
    using running below Cons.prems(3) keys opens by (intro Cons.IH) simp_all
  then show ?case
    unfolding step room by (simp add: entries lines Let_def flip: hs_def)
qed

lemma never_uninterrupted: "\<forall>n. \<not> token (uninterrupted ps) n"
  by simp

lemma searchStart_simps [simp]:
  "\<not> cancelled searchStart" "totalHits searchStart = 0" "bySession searchStart = []"
  "events searchStart = []" "checks searchStart = 0" "searchFailure searchStart = None"
  by (simp_all add: searchStart_def)

text \<open>A result is returned only when every candidate's file opened.\<close>

lemma searchRun_all_opened:
  assumes "\<not> cancelled (searchRun h c ps)" and "searchFailure (searchRun h c ps) = None"
  shows "\<forall>s\<in>set (sessions ps). c (fsPath s) \<noteq> None"
proof (rule ccontr)
  assume "\<not> (\<forall>s\<in>set (sessions ps). c (fsPath s) \<noteq> None)"
  then have gone: "\<exists>s\<in>set (sessions (uninterrupted ps)). c (fsPath s) = None"
    by simp
  have calm: "quiet (token ps) 0 (checks (searchRun h c (uninterrupted ps)))"
    using assms(1) searchRun_interrupted [of ps h c] by blast
  have same: "searchRun h c ps = searchRun h c (uninterrupted ps)"
    using calm by (rule searchRun_quiet(1))
  have "searchFailure (searchRun h c (uninterrupted ps)) = Some OpenFailed"
    using searchFiles_fails [where ps = "uninterrupted ps" and st = searchStart and c = c
        and ss = "sessions (uninterrupted ps)" and h = h and i = 0, OF never_uninterrupted _ gone]
    by (simp add: searchRun_def)
  with assms(2) same show False by simp
qed

lemma allHits_uninterrupted [simp]: "allHits h c (uninterrupted ps) ss = allHits h c ps ss"
  by (simp add: allHits_def)

lemma openedFiles_Nil [simp]: "openedFiles [] = []"
  by (simp add: openedFiles_def List.map_filter_def)

lemma quiet_never: "\<forall>n. \<not> t n \<Longrightarrow> quiet t a b"
  by (simp add: quiet_def)

lemma collected_ascending:
  "e \<in> set (collected h c ps room ss) \<Longrightarrow>
   sorted_wrt (\<lambda>a b. messageIndex a < messageIndex b) (hits e)"
proof (induction ss arbitrary: room)
  case Nil
  then show ?case by simp
next
  case (Cons s ss)
  have "sorted_wrt (\<lambda>a b. messageIndex a < messageIndex b)
          (take room (fileHits h ps 0 (c (fsPath s))))"
    using fileHits_ascending by (rule sorted_wrt_take)
  then show ?case
    using Cons by (auto simp: Let_def split: if_splits)
qed

lemma jsSort_hits_ascending:
  assumes "sorted_wrt (\<lambda>a b. messageIndex a < messageIndex b) hs"
  shows "jsSort compareHits hs = hs"
proof (rule jsSort_sorted_id)
  show "sorted_wrt (\<lambda>a b. compareHits a b \<le> 0) hs"
    using assms by (rule sorted_wrt_mono_rel [rotated]) (simp add: compareHits_def)
qed

subsection \<open>The example search\<close>

lemma hello_never: "\<forall>n. \<not> token (helloSearch k (\<lambda>n. False)) n"
  by (simp add: helloSearch_def)

lemma hello_sessions: "sessions (helloSearch k t) = [sessionA, sessionC]"
  by (simp add: helloSearch_def)

lemma hello_maxResults: "maxResults (helloSearch k t) = k"
  by (simp add: helloSearch_def)

lemma hello_opens: "\<forall>s\<in>set (sessions (helloSearch k t)). corpus (fsPath s) \<noteq> None"
  by (simp add: hello_sessions sessionA_def sessionC_def sessionAt_def corpus_def)

lemma hello_two_matches:
  "length (allHits utcHost (linesOf corpus) (helloSearch 1 (\<lambda>n. False)) [sessionA, sessionC]) = 2"
  by code_simp

lemma hello_reads: "checks (searchRun utcHost corpus (uninterrupted (helloSearch 5 (\<lambda>n. 1 \<le> n)))) = 7"
  by code_simp

lemma hello_keys: "distinct (map cacheKey [sessionA, sessionC])"
  by code_simp

lemma hello_found: "searchSessions utcHost corpus (helloSearch 5 (\<lambda>n. False)) \<noteq> Inr None
    \<and> (\<forall>e. searchSessions utcHost corpus (helloSearch 5 (\<lambda>n. False)) \<noteq> Inl e)"
  using hello_opens [of 5 "\<lambda>n. False"]
    searchFiles_collects [where ps = "helloSearch 5 (\<lambda>n. False)" and st = searchStart
      and ss = "sessions (helloSearch 5 (\<lambda>n. False))" and c = corpus and h = utcHost and i = 0,
      OF hello_never]
  by (simp add: searchSessions_None searchSessions_failed searchRun_def hello_maxResults)

lemma hello_token: "token (helloSearch k t) n = t n"
  by (simp add: helloSearch_def)

lemma gone_never: "\<forall>n. \<not> token (goneSearch k (\<lambda>n. False)) n"
  by (simp add: goneSearch_def helloSearch_def)

lemma gone_sessions: "sessions (goneSearch k t) = [sessionA, sessionC, sessionB]"
  by (simp add: goneSearch_def)

section \<open>Facts about the reconciliation\<close>


lemma reconcileFile_failure:
  "failure (reconcileFile h fs cfg ce st p) = None \<Longrightarrow> failure st = None"
  by (simp add: reconcileFile_def Let_def split: option.splits sum.splits)




lemma reconcileFiles_failure:
  "failure (reconcileFiles h fs cfg ce st ps) = None \<Longrightarrow> failure st = None"
proof (induction ps arbitrary: st)
  case Nil
  then show ?case by simp
next
  case (Cons p ps)
  show ?case
  proof (cases "failure (reconcileFile h fs cfg ce st p) = None")
    case True
    then show ?thesis by (rule reconcileFile_failure)
  next
    case False
    with Cons.prems show ?thesis by (simp add: Let_def)
  qed
qed










lemma build_error: "buildSessionSummary h fs root p n = Inl e \<Longrightarrow> e = OpenFailed"
proof (cases "fs p")
  case Missing
  assume "buildSessionSummary h fs root p n = Inl e"
  with Missing show ?thesis by (simp add: build_missing)
next
  case (Unreadable s)
  assume "buildSessionSummary h fs root p n = Inl e"
  moreover have "buildSessionSummary h fs root p n = Inl OpenFailed"
    using Unreadable by (rule build_unreadable [of fs p s])
  ultimately show ?thesis by simp
next
  case (Readable s ls)
  assume "buildSessionSummary h fs root p n = Inl e"
  moreover have "buildSessionSummary h fs root p n = Inr (Some (summaryOf h root p n s ls))"
    using Readable by (rule build_readable [of fs p s ls])
  ultimately show ?thesis by simp
qed

lemma reconcileFile_error:
  "failure st = None \<Longrightarrow> failure (reconcileFile h fs cfg ce st p) = Some e \<Longrightarrow> e = OpenFailed"
  by (auto simp: reconcileFile_def Let_def dest: build_error split: option.splits sum.splits)

lemma reconcileFiles_error:
  "failure st = None \<Longrightarrow> failure (reconcileFiles h fs cfg ce st ps) = Some e \<Longrightarrow> e = OpenFailed"
proof (induction ps arbitrary: st)
  case Nil
  then show ?case by simp
next
  case (Cons p ps)
  show ?case
  proof (cases "failure (reconcileFile h fs cfg ce st p)")
    case None
    with Cons.prems(2) have "failure (reconcileFiles h fs cfg ce (reconcileFile h fs cfg ce st p) ps)
        = Some e" by (simp add: Let_def)
    with None show ?thesis by (rule Cons.IH)
  next
    case (Some e')
    with Cons.prems(2) have "e' = e" by (simp add: Let_def)
    with Some Cons.prems(1) show ?thesis using reconcileFile_error by blast
  qed
qed




text \<open>\<open>refresh\<close> over a root that exists, in terms of its loop and its document.\<close>

lemma refresh_Some:
  "refresh h cod fs g cfg key (Some files) force outcome w
     = (case failure (passOf h cod fs g cfg key files force w) of
          Some e \<Rightarrow>
            (Inl e, w\<lparr>extractorLog := extractorLog w
                        @ extractorCalls (passOf h cod fs g cfg key files force w)\<rparr>)
        | None \<Rightarrow>
            (case writeJson cod outcome (cacheUri g)
                    (documentOf cfg key (passOf h cod fs g cfg key files force w))
                    (globalStorage w) of
               (res, store') \<Rightarrow>
                 (res, w\<lparr>extractorLog := extractorLog w
                             @ extractorCalls (passOf h cod fs g cfg key files force w),
                         index := buildIndex (sessionsRoot cfg)
                                    (jsSort compareSessions
                                       (summaries (passOf h cod fs g cfg key files force w))),
                         globalStorage := store'\<rparr>)))"
  unfolding refresh_def Let_def passOf_def documentOf_def
  by (simp split: option.splits)

lemma passOf_error: "failure (passOf h cod fs g cfg key files force w) = Some e \<Longrightarrow> e = OpenFailed"
  unfolding passOf_def
  using reconcileFiles_error [of reconcileStart] by (simp add: reconcileStart_def)

lemma writeFile_elsewhere: "u \<noteq> uri \<Longrightarrow> snd (writeFile outcome uri buf store) u = store u"
  by (cases outcome) (simp_all add: writeFile_def)

lemma writeFile_outcome:
  "writeFile Completed uri buf store = (Inr (), store(uri \<mapsto> buf))"
  "writeFile (FailedAfter n) uri buf store = (Inl WriteFailed, store(uri \<mapsto> take n buf))"
  by (simp_all add: writeFile_def)

lemma writeFile_result: "fst (writeFile outcome uri buf store) \<noteq> Inl OpenFailed"
  by (cases outcome) (simp_all add: writeFile_def)

section \<open>Facts about the order of the sessions and the index\<close>

lemma strLess_irrefl [simp]: "\<not> strLess a a"
  by (induction a) simp_all

lemma strLess_trans: "strLess a b \<Longrightarrow> strLess b c \<Longrightarrow> strLess a c"
proof (induction a b arbitrary: c rule: strLess.induct)
  case (2 y ys)
  then show ?case by (cases c) auto
next
  case (4 x xs y ys)
  then show ?case by (cases c) auto
qed simp_all

lemma strLess_total: "a \<noteq> b \<Longrightarrow> strLess a b \<or> strLess b a"
  by (induction a b rule: strLess.induct) auto

lemma strLess_asym: "strLess a b \<Longrightarrow> \<not> strLess b a"
  using strLess_trans [of a b a] by auto

lemma strLess_not_trans:
  assumes "\<not> strLess a b" and "\<not> strLess b c"
  shows "\<not> strLess a c"
proof
  assume ac: "strLess a c"
  show False
  proof (cases "b = c")
    case True
    with ac assms(1) show False by simp
  next
    case False
    with assms(2) strLess_total [of b c] have "strLess c b" by blast
    with ac have "strLess a b" by (rule strLess_trans)
    with assms(1) show False ..
  qed
qed

lemma compareTimeLabel_le:
  "compareTimeLabel a b \<le> 0 \<longleftrightarrow> \<not> strLess (timeLabel a) (timeLabel b)"
  by (simp add: compareTimeLabel_def)

lemma compareSessions_le:
  "compareSessions a b \<le> 0 \<longleftrightarrow>
     \<not> strLess (localDate a) (localDate b)
     \<and> (localDate a = localDate b \<longrightarrow> \<not> strLess (timeLabel a) (timeLabel b))"
  by (auto simp: compareSessions_def compareTimeLabel_def)

lemma keyComparator_compareTimeLabel: "keyComparator compareTimeLabel"
  unfolding keyComparator_def compareTimeLabel_le
  using strLess_asym strLess_not_trans by blast

lemma keyComparator_compareSessions: "keyComparator compareSessions"
proof -
  have total: "compareSessions a b \<le> 0 \<or> compareSessions b a \<le> 0" for a b
    unfolding compareSessions_le using strLess_asym by (cases "localDate a = localDate b") auto
  have trans: "compareSessions a c \<le> 0"
    if ab: "compareSessions a b \<le> 0" and bc: "compareSessions b c \<le> 0" for a b c
  proof -
    from ab bc have d: "\<not> strLess (localDate a) (localDate c)"
      unfolding compareSessions_le using strLess_not_trans by blast
    have "\<not> strLess (timeLabel a) (timeLabel c)" if eq: "localDate a = localDate c"
    proof -
      from ab bc eq have "\<not> strLess (localDate c) (localDate b)" "\<not> strLess (localDate b) (localDate c)"
        unfolding compareSessions_le by auto
      with strLess_total have bceq: "localDate b = localDate c" by blast
      with ab bc eq show ?thesis
        unfolding compareSessions_le using strLess_not_trans by auto
    qed
    with d show ?thesis unfolding compareSessions_le by blast
  qed
  from total trans show ?thesis unfolding keyComparator_def by blast
qed

lemma sessions_newest_first:
  assumes "xs = jsSort compareSessions ss" and "i < length xs" and "j < length xs"
  shows "strLess (localDate (xs ! j)) (localDate (xs ! i)) \<Longrightarrow> i < j"
    and "localDate (xs ! i) = localDate (xs ! j)
           \<Longrightarrow> strLess (timeLabel (xs ! j)) (timeLabel (xs ! i)) \<Longrightarrow> i < j"
proof -
  have sorted: "sorted_wrt (\<lambda>a b. compareSessions a b \<le> 0) xs"
    unfolding assms(1) using keyComparator_compareSessions by (rule sorted_jsSort)
  have later: "\<not> compareSessions (xs ! j) (xs ! i) \<le> 0 \<Longrightarrow> i < j"
  proof (rule ccontr)
    assume n: "\<not> compareSessions (xs ! j) (xs ! i) \<le> 0" and "\<not> i < j"
    then consider "j < i" | "i = j" by linarith
    then show False
    proof cases
      case 1
      with sorted assms(2) have "compareSessions (xs ! j) (xs ! i) \<le> 0"
        by (simp add: sorted_wrt_iff_nth_less)
      with n show False ..
    next
      case 2
      with n show False by (simp add: compareSessions_le)
    qed
  qed
  show "strLess (localDate (xs ! j)) (localDate (xs ! i)) \<Longrightarrow> i < j"
    by (rule later) (simp add: compareSessions_le)
  show "localDate (xs ! i) = localDate (xs ! j)
           \<Longrightarrow> strLess (timeLabel (xs ! j)) (timeLabel (xs ! i)) \<Longrightarrow> i < j"
    by (rule later) (simp add: compareSessions_le)
qed

lemma indexSession_keys:
  "indexSession idx s =
     (case dateKeys (localDate s) of
        None \<Rightarrow> idx
      | Some (yyyy, mm, dd) \<Rightarrow>
          (let byMonth = (case byY idx yyyy of None \<Rightarrow> Map.empty | Some months \<Rightarrow> months);
               byDay = (case byMonth mm of None \<Rightarrow> Map.empty | Some days \<Rightarrow> days);
               dayList = (case byDay dd of None \<Rightarrow> [] | Some l \<Rightarrow> l);
               ymdList = (case byYmd idx (localDate s) of None \<Rightarrow> [] | Some l \<Rightarrow> l);
               ymMap = (case byYm idx yyyy of None \<Rightarrow> Map.empty | Some months \<Rightarrow> months);
               ymList = (case ymMap mm of None \<Rightarrow> [] | Some l \<Rightarrow> l)
           in idx\<lparr>byY := (byY idx)(yyyy \<mapsto> byMonth(mm \<mapsto> byDay(dd \<mapsto> dayList @ [s]))),
                  byYmd := (byYmd idx)(localDate s \<mapsto> ymdList @ [s]),
                  byYm := (byYm idx)(yyyy \<mapsto> ymMap(mm \<mapsto> ymList @ [s]))\<rparr>))"
  by (simp add: indexSession_def dateKeys_def split: list.splits)

lemma dayBucket_indexSession:
  "dayBucket (indexSession idx s) y m d
     = dayBucket idx y m d @ (if dateKeys (localDate s) = Some (y, m, d) then [s] else [])"
proof (cases "dateKeys (localDate s)")
  case None
  then show ?thesis by (simp add: indexSession_keys)
next
  case (Some k)
  obtain y' m' d' where k: "k = (y', m', d')" by (cases k) auto
  show ?thesis
    by (simp add: indexSession_keys Some k dayBucket_def Let_def split: option.splits)
qed

lemma dayBucket_foldl:
  "dayBucket (foldl indexSession idx ss) y m d
     = dayBucket idx y m d @ filter (\<lambda>s. dateKeys (localDate s) = Some (y, m, d)) ss"
  by (induction ss arbitrary: idx) (simp_all add: dayBucket_indexSession)

lemma dayBucket_sortDayLists:
  "dayBucket (idx\<lparr>byY := sortDayLists (byY idx)\<rparr>) y m d
     = jsSort compareTimeLabel (dayBucket idx y m d)"
  by (simp add: dayBucket_def sortDayLists_def split: option.splits)

lemma dayBucket_buildIndex:
  "dayBucket (buildIndex root ss) y m d
     = jsSort compareTimeLabel (filter (\<lambda>s. dateKeys (localDate s) = Some (y, m, d)) ss)"
  by (simp add: buildIndex_def Let_def dayBucket_sortDayLists dayBucket_foldl)
     (simp add: dayBucket_def emptyIndex_def)

lemma indexSessions_indexSession [simp]: "indexSessions (indexSession idx s) = indexSessions idx"
  by (simp add: indexSession_keys Let_def split: option.splits prod.splits)

lemma indexSessions_foldl [simp]: "indexSessions (foldl indexSession idx ss) = indexSessions idx"
  by (induction ss arbitrary: idx) simp_all

lemma indexSessions_buildIndex [simp]: "indexSessions (buildIndex root ss) = ss"
  by (simp add: buildIndex_def Let_def)

lemma digitKeys_indexSession:
  assumes "digitKeys idx" and "dateKeys (localDate s) = Some (y, m, d)"
    and "isDigits 4 y" and "isDigits 2 m" and "isDigits 2 d" and "isYmdString (localDate s)"
  shows "digitKeys (indexSession idx s)"
  using assms
  unfolding digitKeys_def indexSession_keys
  by (auto simp: Let_def split: option.splits if_splits)

lemma splitOn_no_sep: "sep \<notin> set s \<Longrightarrow> splitOn sep s = [s]"
  by (induction s) simp_all

lemma splitOn_append: "sep \<notin> set a \<Longrightarrow> splitOn sep (a @ sep # r) = a # splitOn sep r"
  by (induction a) simp_all

lemma isDigits_no_dash: "isDigits n s \<Longrightarrow> 45 \<notin> set s"
  by (auto simp: isDigits_def isDigit_def list_all_iff)

lemma ymd_shape:
  assumes "isYmdString date"
  shows "date = take 4 date @ 45 # take 2 (drop 5 date) @ 45 # drop 8 date"
proof -
  from assms have len: "length date = 10" and a: "date ! 4 = 45" and b: "date ! 7 = 45"
    by (simp_all add: isYmdString_def)
  have "date = take 4 date @ date ! 4 # drop 5 date"
    using id_take_nth_drop [of 4 date] len by simp
  moreover have "drop 5 date = take 2 (drop 5 date) @ drop 5 date ! 2 # drop 3 (drop 5 date)"
    using id_take_nth_drop [of 2 "drop 5 date"] len by simp
  moreover have "drop 5 date ! 2 = date ! 7" using len by simp
  moreover have "drop 3 (drop 5 date) = drop 8 date" by simp
  ultimately show ?thesis using a b by metis
qed

lemma dateKeys_parts:
  assumes "isDigits 4 y" and "isDigits 2 m" and "isDigits 2 d"
  shows "dateKeys (y @ 45 # m @ 45 # d) = Some (y, m, d)"
proof -
  from assms have ne: "y \<noteq> []" "m \<noteq> []" "d \<noteq> []" by (auto simp: isDigits_def)
  have "splitOn 45 (y @ 45 # m @ 45 # d) = [y, m, d]"
    using assms by (simp add: splitOn_append splitOn_no_sep isDigits_no_dash)
  with ne show ?thesis by (simp add: dateKeys_def)
qed

lemma dateKeys_ymd:
  assumes "isYmdString date"
  shows "dateKeys date = Some (take 4 date, take 2 (drop 5 date), drop 8 date)"
proof -
  from assms have "isDigits 4 (take 4 date)" "isDigits 2 (take 2 (drop 5 date))"
    "isDigits 2 (drop 8 date)" by (simp_all add: isYmdString_def)
  from dateKeys_parts [OF this] ymd_shape [OF assms] show ?thesis by simp
qed

lemma isYmdString_parts:
  assumes "isDigits 4 y" and "isDigits 2 m" and "isDigits 2 d"
  shows "isYmdString (y @ 45 # m @ 45 # d)"
  using assms by (simp add: isYmdString_def isDigits_def nth_append)

lemma strLess_append:
  "length a = length b \<Longrightarrow> strLess (a @ r) (b @ s) \<longleftrightarrow> strLess a b \<or> (a = b \<and> strLess r s)"
  by (induction a b rule: list_induct2) auto

lemma digitsToNat_foldl:
  "foldl (\<lambda>acc c. 10 * acc + (c - 48)) (acc :: nat) s
     = acc * 10 ^ length s + foldl (\<lambda>acc c. 10 * acc + (c - 48)) 0 s"
proof (induction s arbitrary: acc)
  case Nil
  then show ?case by simp
next
  case (Cons c s)
  define f where "f = (\<lambda>(acc::nat) (c::nat). 10 * acc + (c - 48))"
  define k where "k = c - 48"
  define P where "P = (10::nat) ^ length s"
  have 1: "foldl f (10 * acc + k) s = (10 * acc + k) * P + foldl f 0 s"
    unfolding f_def P_def by (rule Cons.IH)
  have 2: "foldl f k s = k * P + foldl f 0 s"
    unfolding f_def P_def by (rule Cons.IH)
  have 3: "foldl f acc (c # s) = foldl f (10 * acc + k) s" by (simp add: f_def k_def)
  have 4: "foldl f 0 (c # s) = foldl f k s" by (simp add: f_def k_def)
  have 5: "(10::nat) ^ length (c # s) = 10 * P" by (simp add: P_def)
  have "foldl f acc (c # s) = acc * 10 ^ length (c # s) + foldl f 0 (c # s)"
    by (simp only: 1 2 3 4 5) (simp add: algebra_simps)
  then show ?case by (simp only: f_def)
qed

lemma digitsToNat_Cons: "digitsToNat (c # s) = (c - 48) * 10 ^ length s + digitsToNat s"
  using digitsToNat_foldl [of "c - 48" s] by (simp add: digitsToNat_def)

lemma digitsToNat_Nil [simp]: "digitsToNat [] = 0"
  by (simp add: digitsToNat_def)

lemma digitsToNat_bound: "list_all isDigit s \<Longrightarrow> digitsToNat s < 10 ^ length s"
proof (induction s)
  case Nil
  then show ?case by simp
next
  case (Cons c s)
  define P where "P = (10::nat) ^ length s"
  from Cons have c: "c - 48 \<le> 9" and s: "digitsToNat s < P"
    by (auto simp: isDigit_def P_def)
  from c have "(c - 48) * P \<le> 9 * P" by (rule mult_le_mono1)
  with s have "(c - 48) * P + digitsToNat s < 10 * P" by linarith
  then show ?case by (simp add: digitsToNat_Cons P_def)
qed

lemma strLess_digits:
  "length a = length b \<Longrightarrow> list_all isDigit a \<Longrightarrow> list_all isDigit b
     \<Longrightarrow> (strLess a b \<longleftrightarrow> digitsToNat a < digitsToNat b)
         \<and> (a = b \<longleftrightarrow> digitsToNat a = digitsToNat b)"
proof (induction a b rule: list_induct2)
  case Nil
  then show ?case by simp
next
  case (Cons x xs y ys)
  define p where "p = (10::nat) ^ length ys"
  define u where "u = x - 48"
  define v where "v = y - 48"
  define r where "r = digitsToNat xs"
  define t where "t = digitsToNat ys"
  from Cons have ih: "strLess xs ys \<longleftrightarrow> r < t" "xs = ys \<longleftrightarrow> r = t"
    by (simp_all add: r_def t_def)
  from Cons.prems have xy: "x < y \<longleftrightarrow> u < v" "x = y \<longleftrightarrow> u = v"
    by (auto simp: isDigit_def u_def v_def)
  have r: "r < p" using digitsToNat_bound [of xs] Cons.prems(1) Cons.hyps
    by (simp add: r_def p_def)
  have t: "t < p" using digitsToNat_bound [of ys] Cons.prems(2)
    by (simp add: t_def p_def)
  have val: "digitsToNat (x # xs) = u * p + r" "digitsToNat (y # ys) = v * p + t"
    using Cons.hyps by (simp_all add: digitsToNat_Cons u_def v_def r_def t_def p_def)
  have lt: "u * p + r < v * p + t \<longleftrightarrow> u < v \<or> (u = v \<and> r < t)"
  proof (cases u v rule: linorder_cases)
    case less
    then have "Suc u \<le> v" by simp
    then have "Suc u * p \<le> v * p" by (rule mult_le_mono1)
    with r less show ?thesis by simp
  next
    case equal
    then show ?thesis by simp
  next
    case greater
    then have "Suc v \<le> u" by simp
    then have "Suc v * p \<le> u * p" by (rule mult_le_mono1)
    with t greater show ?thesis by simp
  qed
  have eq: "u * p + r = v * p + t \<longleftrightarrow> u = v \<and> r = t"
  proof (cases u v rule: linorder_cases)
    case less
    then have "Suc u \<le> v" by simp
    then have "Suc u * p \<le> v * p" by (rule mult_le_mono1)
    with r less show ?thesis by simp
  next
    case equal
    then show ?thesis by simp
  next
    case greater
    then have "Suc v \<le> u" by simp
    then have "Suc v * p \<le> u * p" by (rule mult_le_mono1)
    with t greater show ?thesis by simp
  qed
  show ?case
    by (simp only: strLess.simps val lt eq xy ih list.inject)
qed

lemma strLess_ymd:
  assumes "isYmdString a" and "isYmdString b"
  shows "strLess a b \<longleftrightarrow> ymdBefore (ymdOf a) (ymdOf b)"
proof -
  define ya where "ya = take 4 a"
  define ma where "ma = take 2 (drop 5 a)"
  define da where "da = drop 8 a"
  define yb where "yb = take 4 b"
  define mb where "mb = take 2 (drop 5 b)"
  define db where "db = drop 8 b"
  from assms have dig: "isDigits 4 ya" "isDigits 2 ma" "isDigits 2 da"
    "isDigits 4 yb" "isDigits 2 mb" "isDigits 2 db"
    by (simp_all add: isYmdString_def ya_def ma_def da_def yb_def mb_def db_def)
  have a: "a = ya @ 45 # ma @ 45 # da" using ymd_shape [OF assms(1)]
    by (simp only: ya_def ma_def da_def)
  have b: "b = yb @ 45 # mb @ 45 # db" using ymd_shape [OF assms(2)]
    by (simp only: yb_def mb_def db_def)
  have y: "(strLess ya yb \<longleftrightarrow> digitsToNat ya < digitsToNat yb)
           \<and> (ya = yb \<longleftrightarrow> digitsToNat ya = digitsToNat yb)"
    using dig by (intro strLess_digits) (simp_all add: isDigits_def)
  have m: "(strLess ma mb \<longleftrightarrow> digitsToNat ma < digitsToNat mb)
           \<and> (ma = mb \<longleftrightarrow> digitsToNat ma = digitsToNat mb)"
    using dig by (intro strLess_digits) (simp_all add: isDigits_def)
  have d: "(strLess da db \<longleftrightarrow> digitsToNat da < digitsToNat db)
           \<and> (da = db \<longleftrightarrow> digitsToNat da = digitsToNat db)"
    using dig by (intro strLess_digits) (simp_all add: isDigits_def)
  have "strLess a b \<longleftrightarrow>
          strLess ya yb \<or> (ya = yb \<and> (strLess ma mb \<or> (ma = mb \<and> strLess da db)))"
  proof -
    have 1: "strLess a b \<longleftrightarrow> strLess ya yb \<or> (ya = yb \<and> strLess (45 # ma @ 45 # da) (45 # mb @ 45 # db))"
      unfolding a b using dig by (intro strLess_append) (simp add: isDigits_def)
    have 2: "strLess (ma @ 45 # da) (mb @ 45 # db) \<longleftrightarrow> strLess ma mb \<or> (ma = mb \<and> strLess (45 # da) (45 # db))"
      using dig by (intro strLess_append) (simp add: isDigits_def)
    show ?thesis by (simp add: 1 2)
  qed
  also have "\<dots> \<longleftrightarrow> ymdBefore (ymdOf a) (ymdOf b)"
    using y m d
    by (simp add: ymdBefore_def ymdOf_def flip: ya_def ma_def da_def yb_def mb_def db_def)
  finally show ?thesis .
qed

lemma natToString_four:
  assumes "1000 \<le> n" and "n \<le> 9999"
  shows "isDigits 4 (natToString n)"
proof -
  define a where "a = n div 1000"
  define b where "b = n div 100"
  define c where "c = n div 10"
  have cb: "c div 10 = b" and ba: "b div 10 = a"
    by (simp_all add: a_def b_def c_def div_mult2_eq [symmetric])
  have a: "1 \<le> a" "a < 10" using assms by (simp_all add: a_def less_eq_div_iff_mult_less_eq div_less_iff_less_mult)
  have b: "10 \<le> b" using assms by (simp add: b_def less_eq_div_iff_mult_less_eq)
  have c: "10 \<le> c" using assms by (simp add: c_def less_eq_div_iff_mult_less_eq)
  have 1: "natToString n = natToString c @ [48 + n mod 10]"
    using assms by (subst natToString.simps) (simp add: c_def)
  have 2: "natToString c = natToString b @ [48 + c mod 10]"
    using c by (subst natToString.simps) (simp add: cb)
  have 3: "natToString b = natToString a @ [48 + b mod 10]"
    using b by (subst natToString.simps) (simp add: ba)
  have 4: "natToString a = [48 + a]"
    using a by (simp add: natToString_digit)
  have m: "x mod 10 \<le> 9" for x :: nat
    using mod_less_divisor [of 10 x] by linarith
  show ?thesis
    using a by (simp add: 1 2 3 4 isDigits_def isDigit_def m)
qed

lemma ymdToString_fixed_width:
  assumes "1000 \<le> year v" and "year v \<le> 9999" and "month v < 100" and "day v < 100"
  shows "isYmdString (ymdToString v)"
proof -
  from assms have y: "isDigits 4 (intToString (year v))"
    by (simp add: intToString_def natToString_four)
  have "ymdToString v = intToString (year v) @ 45 # pad2 (month v) @ 45 # pad2 (day v)"
    by (simp add: ymdToString_def str_def)
  with isYmdString_parts [OF y pad2_shape [OF assms(3)] pad2_shape [OF assms(4)]]
  show ?thesis by simp
qed

lemma digitKeys_empty: "digitKeys ((emptyIndex root)\<lparr>indexSessions := ss\<rparr>)"
  by (simp add: digitKeys_def emptyIndex_def)

lemma digitKeys_foldl:
  "digitKeys idx \<Longrightarrow> \<forall>s\<in>set ss. isYmdString (localDate s)
     \<Longrightarrow> digitKeys (foldl indexSession idx ss)"
proof (induction ss arbitrary: idx)
  case Nil
  then show ?case by simp
next
  case (Cons s ss)
  from Cons.prems(2) have s: "isYmdString (localDate s)" by simp
  then have parts: "isDigits 4 (take 4 (localDate s))" "isDigits 2 (take 2 (drop 5 (localDate s)))"
    "isDigits 2 (drop 8 (localDate s))" by (simp_all add: isYmdString_def)
  have "digitKeys (indexSession idx s)"
    using Cons.prems(1) dateKeys_ymd [OF s] parts s by (rule digitKeys_indexSession)
  with Cons.IH [of "indexSession idx s"] Cons.prems(2) show ?case by simp
qed

lemma digitKeys_sortDayLists:
  "digitKeys idx \<Longrightarrow> digitKeys (idx\<lparr>byY := sortDayLists (byY idx)\<rparr>)"
  unfolding digitKeys_def sortDayLists_def by (simp (no_asm_simp)) blast

lemma digitKeys_buildIndex:
  "\<forall>s\<in>set ss. isYmdString (localDate s) \<Longrightarrow> digitKeys (buildIndex root ss)"
  unfolding buildIndex_def Let_def
  by (intro digitKeys_sortDayLists digitKeys_foldl digitKeys_empty)

lemma eq_commute_conj3: "(a = y \<and> b = m \<and> c = d) = (y = a \<and> m = b \<and> d = c)"
  by auto

lemma digitKeys_byY:
  "digitKeys idx \<Longrightarrow>
     \<forall>y months. byY idx y = Some months \<longrightarrow>
        isDigits 4 y
        \<and> (\<forall>m days. months m = Some days \<longrightarrow>
              isDigits 2 m \<and> (\<forall>d l. days d = Some l \<longrightarrow> isDigits 2 d))"
  by (simp add: digitKeys_def)

lemma buildIndex_invariants:
  assumes idx: "idx = buildIndex root (jsSort compareSessions found)"
  shows "set (indexSessions idx) = set found \<and> length (indexSessions idx) = length found
       \<and> (\<forall>i j. i < length (indexSessions idx) \<and> j < length (indexSessions idx) \<longrightarrow>
             (strLess (localDate (indexSessions idx ! j)) (localDate (indexSessions idx ! i))
                \<longrightarrow> i < j)
           \<and> (localDate (indexSessions idx ! i) = localDate (indexSessions idx ! j)
                \<and> strLess (timeLabel (indexSessions idx ! j)) (timeLabel (indexSessions idx ! i))
                \<longrightarrow> i < j))
       \<and> (\<forall>a b. isYmdString a \<and> isYmdString b
             \<longrightarrow> (strLess a b \<longleftrightarrow> ymdBefore (ymdOf a) (ymdOf b)))
       \<and> (\<forall>y m d. dayBucket idx y m d
             = jsSort compareTimeLabel
                 (filter (\<lambda>s. dateKeys (localDate s) = Some (y, m, d)) (indexSessions idx)))
       \<and> (\<forall>s\<in>set found. isYmdString (localDate s) \<longrightarrow>
             (\<forall>y m d. s \<in> set (dayBucket idx y m d) \<longleftrightarrow>
                y = take 4 (localDate s) \<and> m = take 2 (drop 5 (localDate s))
                \<and> d = drop 8 (localDate s)))
       \<and> (\<forall>y m d. sorted_wrt (\<lambda>a b. \<not> strLess (timeLabel a) (timeLabel b))
                     (dayBucket idx y m d))
       \<and> ((\<forall>s\<in>set found. isYmdString (localDate s)) \<longrightarrow>
             (\<forall>y months. byY idx y = Some months \<longrightarrow>
                isDigits 4 y
                \<and> (\<forall>m days. months m = Some days \<longrightarrow>
                      isDigits 2 m \<and> (\<forall>d l. days d = Some l \<longrightarrow> isDigits 2 d))))"
proof -
  define xs where "xs = jsSort compareSessions found"
  have flat: "indexSessions idx = xs" by (simp add: idx xs_def)
  have c1: "set (indexSessions idx) = set found" by (simp add: flat xs_def)
  have c2: "length (indexSessions idx) = length found" by (simp add: flat xs_def)
  have c3: "\<forall>i j. i < length (indexSessions idx) \<and> j < length (indexSessions idx) \<longrightarrow>
             (strLess (localDate (indexSessions idx ! j)) (localDate (indexSessions idx ! i))
                \<longrightarrow> i < j)
           \<and> (localDate (indexSessions idx ! i) = localDate (indexSessions idx ! j)
                \<and> strLess (timeLabel (indexSessions idx ! j)) (timeLabel (indexSessions idx ! i))
                \<longrightarrow> i < j)"
  proof (intro allI impI conjI)
    fix i j
    assume b: "i < length (indexSessions idx) \<and> j < length (indexSessions idx)"
    then have i: "i < length xs" and j: "j < length xs" by (simp_all add: flat)
    {
      assume "strLess (localDate (indexSessions idx ! j)) (localDate (indexSessions idx ! i))"
      then have "strLess (localDate (xs ! j)) (localDate (xs ! i))" by (simp only: flat)
      then show "i < j" by (rule sessions_newest_first(1) [OF xs_def i j])
    }
    {
      assume "localDate (indexSessions idx ! i) = localDate (indexSessions idx ! j)
                \<and> strLess (timeLabel (indexSessions idx ! j)) (timeLabel (indexSessions idx ! i))"
      then have "localDate (xs ! i) = localDate (xs ! j)"
        and "strLess (timeLabel (xs ! j)) (timeLabel (xs ! i))" by (simp_all only: flat)
      then show "i < j" by (rule sessions_newest_first(2) [OF xs_def i j])
    }
  qed
  have c4: "\<forall>a b. isYmdString a \<and> isYmdString b
             \<longrightarrow> (strLess a b \<longleftrightarrow> ymdBefore (ymdOf a) (ymdOf b))"
    by (intro allI impI, elim conjE) (rule strLess_ymd)
  have bucket: "dayBucket idx y m d
             = jsSort compareTimeLabel
                 (filter (\<lambda>s. dateKeys (localDate s) = Some (y, m, d)) (indexSessions idx))"
    for y m d
    unfolding flat by (simp only: idx dayBucket_buildIndex xs_def)
  have c5: "\<forall>y m d. dayBucket idx y m d
             = jsSort compareTimeLabel
                 (filter (\<lambda>s. dateKeys (localDate s) = Some (y, m, d)) (indexSessions idx))"
    by (intro allI) (rule bucket)
  have c6: "\<forall>s\<in>set found. isYmdString (localDate s) \<longrightarrow>
             (\<forall>y m d. s \<in> set (dayBucket idx y m d) \<longleftrightarrow>
                y = take 4 (localDate s) \<and> m = take 2 (drop 5 (localDate s))
                \<and> d = drop 8 (localDate s))"
  proof (intro ballI impI allI)
    fix s y m d
    assume s: "s \<in> set found" and w: "isYmdString (localDate s)"
    have "s \<in> set (dayBucket idx y m d) \<longleftrightarrow> dateKeys (localDate s) = Some (y, m, d)"
      using s by (simp add: bucket c1)
    also have "\<dots> \<longleftrightarrow> y = take 4 (localDate s) \<and> m = take 2 (drop 5 (localDate s))
                \<and> d = drop 8 (localDate s)"
      by (simp only: dateKeys_ymd [OF w] option.inject prod.inject) (rule eq_commute_conj3)
    finally show "s \<in> set (dayBucket idx y m d) \<longleftrightarrow>
                y = take 4 (localDate s) \<and> m = take 2 (drop 5 (localDate s))
                \<and> d = drop 8 (localDate s)" .
  qed
  have c7: "\<forall>y m d. sorted_wrt (\<lambda>a b. \<not> strLess (timeLabel a) (timeLabel b))
                     (dayBucket idx y m d)"
  proof (intro allI)
    fix y m d
    show "sorted_wrt (\<lambda>a b. \<not> strLess (timeLabel a) (timeLabel b)) (dayBucket idx y m d)"
      using sorted_jsSort [OF keyComparator_compareTimeLabel]
      by (simp only: bucket compareTimeLabel_le)
  qed
  have c8: "(\<forall>s\<in>set found. isYmdString (localDate s)) \<longrightarrow>
             (\<forall>y months. byY idx y = Some months \<longrightarrow>
                isDigits 4 y
                \<and> (\<forall>m days. months m = Some days \<longrightarrow>
                      isDigits 2 m \<and> (\<forall>d l. days d = Some l \<longrightarrow> isDigits 2 d)))"
  proof
    assume "\<forall>s\<in>set found. isYmdString (localDate s)"
    then have "\<forall>s\<in>set xs. isYmdString (localDate s)" by (simp add: xs_def)
    then have "digitKeys idx" unfolding idx xs_def [symmetric] by (rule digitKeys_buildIndex)
    then show "\<forall>y months. byY idx y = Some months \<longrightarrow>
                isDigits 4 y
                \<and> (\<forall>m days. months m = Some days \<longrightarrow>
                      isDigits 2 m \<and> (\<forall>d l. days d = Some l \<longrightarrow> isDigits 2 d))"
      by (rule digitKeys_byY)
  qed
  show ?thesis
    using c1 c2 c3 c4 c5 c6 c7 c8 by (intro conjI)
qed

text \<open>The index that a refresh leaves when it does not end in the error of an opening.\<close>

lemma buildIndex_Nil: "buildIndex root (jsSort compareSessions []) = emptyIndex root"
  by (simp add: buildIndex_def emptyIndex_def sortDayLists_def)

lemma refresh_index:
  assumes run: "refresh h cod fs g cfg key found force outcome w = (res, w')"
    and ok: "res \<noteq> Inl OpenFailed"
  shows "\<exists>ss. index w' = buildIndex (sessionsRoot cfg) (jsSort compareSessions ss)"
proof (cases found)
  case None
  with run have "index w' = emptyIndex (sessionsRoot cfg)"
    by (auto simp: refresh_def)
  then show ?thesis using buildIndex_Nil by metis
next
  case (Some files)
  define st where "st = reconcileFiles h fs cfg
      (cachedEntriesOf cfg key
         (if force then None else readJson cod (cacheUri g) (globalStorage w)))
      reconcileStart files"
  define doc where "doc = \<lparr>version = 4, summaryAlgoVersion = SUMMARY_CACHE_ALGO_VERSION,
      cacheSessionsRoot = sessionsRoot cfg, cachePreviewMaxMessages = previewMaxMessages cfg,
      cacheDateTimeSettingsKey = key, entries = nextEntries st\<rparr>"
  have unfold: "refresh h cod fs g cfg key (Some files) force outcome w
      = (case failure st of
           Some e \<Rightarrow> (Inl e, w\<lparr>extractorLog := extractorLog w @ extractorCalls st\<rparr>)
         | None \<Rightarrow>
             (case writeJson cod outcome (cacheUri g) doc (globalStorage w) of
                (res, store') \<Rightarrow>
                  (res, w\<lparr>extractorLog := extractorLog w @ extractorCalls st,
                          index := buildIndex (sessionsRoot cfg)
                                     (jsSort compareSessions (summaries st)),
                          globalStorage := store'\<rparr>)))"
    unfolding refresh_def Let_def st_def doc_def
    by (simp split: option.splits)
  note ran = run [unfolded Some unfold]
  show ?thesis
  proof (cases "failure st")
    case None
    with ran have "index w' = buildIndex (sessionsRoot cfg) (jsSort compareSessions (summaries st))"
      by (auto split: prod.splits)
    then show ?thesis by (rule exI)
  next
    case (Some e)
    with ran have "res = Inl e" by simp
    moreover have "e = OpenFailed"
      using Some reconcileFiles_error [of reconcileStart h fs cfg _ files e]
      by (simp add: st_def reconcileStart_def)
    ultimately show ?thesis using ok by simp
  qed
qed

section \<open>The scenario of the specification\<close>

text \<open>
  C1 (as amended). The file \<open>2024/05/01/rollout-A.jsonl\<close> under any root holds a first
  line \<open>{"type":"session_meta","payload":{"timestamp":"2024-05-01T10:00:00Z","cwd":"/proj"}}\<close>,
  a user message "hello world" and an assistant message "hi there", each record tagged by
  its member \<open>type\<close>. With a preview limit of at least 2, on every host,
  \<open>buildSessionSummary\<close> returns a summary with \<open>localDate\<close> "2024-05-01", the snippet
  "hello world" and one preview message for each role.
\<close>

theorem C1_scenario_type_tagged:
  assumes readable: "fs (datedPath root) = Readable st (rolloutA ''type'')" and limit: "2 \<le> n"
  shows "\<exists>s. buildSessionSummary h fs root (datedPath root) n = Inr (Some s)
           \<and> localDate s = str ''2024-05-01'' \<and> snippet s = str ''hello world''
           \<and> previewMessages s = [\<lparr>role = User, msgText = str ''hello world''\<rparr>,
                                   \<lparr>role = Assistant, msgText = str ''hi there''\<rparr>]"
proof -
  define day where "day = \<lparr>year = 2024, month = 5, day = 1\<rparr>"
  define both where "both = [\<lparr>role = User, msgText = str ''hello world''\<rparr>,
                              \<lparr>role = Assistant, msgText = str ''hi there''\<rparr>]"
  have stat: "statSafe fs (datedPath root) = Some st"
    by (simp add: statSafe_def readable)
  obtain m where meta: "tryReadSessionMeta fs (datedPath root) = Inr m"
    using tryReadSessionMeta_readable [of fs "datedPath root" st] readable by blast
  have inferred: "inferYmdFromPath root (datedPath root) = Some day"
    unfolding day_def by (rule infer_dated)
  have date: "ymdToString day = str ''2024-05-01''"
    unfolding day_def by (rule ymd_may1st)
  have previews: "readPreviewMessages fs (datedPath root) n = Inr both"
    by (simp add: readPreviewMessages_def readable collect_rolloutA [OF limit] both_def)
  have source: "pickSessionSnippetSource both = Some (str ''hello world'')"
    by (simp add: snippet_hello both_def)
  have nonempty: "str ''hello world'' \<noteq> []"
    by (simp add: str_def)
  show ?thesis
    unfolding buildSessionSummary_def
    by (simp add: stat meta inferred date previews source nonempty single_hello Let_def
        flip: both_def)
qed

theorem C1_scenario_type_tagged_witness:
  "oneFile (datedPath homeRoot) (Readable may1st (rolloutA ''type'')) (datedPath homeRoot) =
     Readable may1st (rolloutA ''type'') \<and> (2::nat) \<le> 6
   \<and> (\<exists>s. buildSessionSummary utcHost
              (oneFile (datedPath homeRoot) (Readable may1st (rolloutA ''type'')))
              homeRoot (datedPath homeRoot) 6 = Inr (Some s)
           \<and> localDate s = str ''2024-05-01'' \<and> snippet s = str ''hello world''
           \<and> previewMessages s = [\<lparr>role = User, msgText = str ''hello world''\<rparr>,
                                   \<lparr>role = Assistant, msgText = str ''hi there''\<rparr>])"
  using C1_scenario_type_tagged
    [of "oneFile (datedPath homeRoot) (Readable may1st (rolloutA ''type''))" homeRoot may1st 6
        utcHost]
  by (simp add: oneFile_def)

text \<open>
  C1 as the specification states it fails: when the three records are tagged by a member
  \<open>kind\<close>, the code, which reads \<open>type\<close>, recognises none of them. The date still comes
  from the path, but there is no preview message and the snippet is the file name.
\<close>

theorem C1_scenario_kind_tagged_counterexample:
  "buildSessionSummary utcHost
     (oneFile (datedPath homeRoot) (Readable may1st (rolloutA ''kind'')))
     homeRoot (datedPath homeRoot) 6 =
   Inr (Some \<lparr>fsPath = datedPath homeRoot, cacheKey = datedPath homeRoot, meta = noMeta,
              inferredYmd = Some \<lparr>year = 2024, month = 5, day = 1\<rparr>,
              localDate = str ''2024-05-01'', timeLabel = str ''--:--'',
              snippet = str ''rollout-A.jsonl'', cwdShort = [], previewMessages = []\<rparr>)"
  by code_simp

section \<open>The display date\<close>



section \<open>When the extractor returns a summary\<close>

text \<open>
  C8 fails on a file that \<open>stat\<close> finds and \<open>open\<close> refuses: \<open>statSafe\<close> succeeds, then
  \<open>fs.open\<close> in \<open>readFirstLineUtf8\<close> rejects outside any handler, and
  \<open>buildSessionSummary\<close> returns neither \<open>null\<close> nor a summary.
\<close>

theorem C8_open_failure_escapes:
  "statSafe (oneFile (looseFile homeRoot) (Unreadable june1st)) (looseFile homeRoot) = Some june1st
   \<and> buildSessionSummary utcHost (oneFile (looseFile homeRoot) (Unreadable june1st))
        homeRoot (looseFile homeRoot) 6 = Inl OpenFailed"
  by code_simp

text \<open>
  What holds of C8: \<open>buildSessionSummary\<close> returns \<open>null\<close> exactly when \<open>stat\<close> fails; for
  every file that opens it returns a summary, whatever its lines are; lines that are not
  JSON are skipped, so the preview messages are those of the file without them; and when
  the first line is missing, empty, not JSON or not a session_meta record, the metadata is
  empty, the time label is the placeholder and the date comes from the path or, failing
  that, from the modification time.
\<close>

theorem summary_for_every_readable_file:
  "(buildSessionSummary h fs root p n = Inr None \<longleftrightarrow> statSafe fs p = None)
   \<and> (\<forall>st ls. fs p = Readable st ls \<longrightarrow>
          (\<exists>s. buildSessionSummary h fs root p n = Inr (Some s)
             \<and> meta s = firstLineMeta ls
             \<and> previewMessages s = collectPreview n [] (filter (\<lambda>l. l \<noteq> Malformed) ls)
             \<and> ((ls = [] \<or> (\<exists>rest. ls = Blank # rest) \<or> (\<exists>rest. ls = Malformed # rest)
                  \<or> (\<exists>obj rest. ls = Parsed obj # rest \<and> sessionMetaOf obj = None))
                 \<longrightarrow> meta s = noMeta \<and> timeLabel s = str ''--:--''
                     \<and> localDate s = ymdToString (case inferYmdFromPath root p of
                                                     Some v \<Rightarrow> v
                                                   | None \<Rightarrow> toYmdLocal h (mtimeMs st)))))"
proof -
  have null: "buildSessionSummary h fs root p n = Inr None \<longleftrightarrow> statSafe fs p = None"
    by (cases "fs p") (simp_all add: build_missing build_unreadable build_readable)
  have some: "\<exists>s. buildSessionSummary h fs root p n = Inr (Some s)
             \<and> meta s = firstLineMeta ls
             \<and> previewMessages s = collectPreview n [] (filter (\<lambda>l. l \<noteq> Malformed) ls)
             \<and> ((ls = [] \<or> (\<exists>rest. ls = Blank # rest) \<or> (\<exists>rest. ls = Malformed # rest)
                  \<or> (\<exists>obj rest. ls = Parsed obj # rest \<and> sessionMetaOf obj = None))
                 \<longrightarrow> meta s = noMeta \<and> timeLabel s = str ''--:--''
                     \<and> localDate s = ymdToString (case inferYmdFromPath root p of
                                                     Some v \<Rightarrow> v
                                                   | None \<Rightarrow> toYmdLocal h (mtimeMs st)))"
    if readable: "fs p = Readable st ls" for st ls
  proof -
    have unusable: "firstLineMeta ls = noMeta"
      if "ls = [] \<or> (\<exists>rest. ls = Blank # rest) \<or> (\<exists>rest. ls = Malformed # rest)
            \<or> (\<exists>obj rest. ls = Parsed obj # rest \<and> sessionMetaOf obj = None)"
      using that by (auto simp: firstLineMeta_unusable)
    show ?thesis
      using build_readable [of fs p st ls h root n] readable unusable
      by (auto simp: summaryOf_def collectPreview_skips_malformed startLocalOf_noMeta
          split: option.splits)
  qed
  show ?thesis
    using null some by blast
qed

theorem summary_for_every_readable_file_witness:
  "\<exists>s. buildSessionSummary utcHost (oneFile (looseFile homeRoot) (Readable june1st [Malformed]))
          homeRoot (looseFile homeRoot) 6 = Inr (Some s)
        \<and> meta s = noMeta \<and> timeLabel s = str ''--:--'' \<and> localDate s = str ''2024-06-01''
        \<and> previewMessages s = []"
proof -
  have readable: "oneFile (looseFile homeRoot) (Readable june1st [Malformed]) (looseFile homeRoot)
      = Readable june1st [Malformed]"
    by (simp add: oneFile_def)
  show ?thesis
    using summary_for_every_readable_file
      [of utcHost "oneFile (looseFile homeRoot) (Readable june1st [Malformed])" homeRoot
          "looseFile homeRoot" 6]
      readable infer_loose [of homeRoot] date_of_june1st
    by (auto split: option.splits)
qed

section \<open>The time label\<close>

text \<open>
  C10. For a file that opens, \<open>timeLabel\<close> is the placeholder \<open>--:--\<close> whenever the first
  line yields no start timestamp that parses (the line is missing, empty, not JSON, not a
  session_meta record, or its timestamp is absent, empty or unparseable). When the start
  parses, \<open>timeLabel\<close> is \<open>pad2\<close> of its local hour, a colon and \<open>pad2\<close> of its local minute:
  two digits each for an hour below 24 and a minute below 60.
\<close>

theorem C10_time_label:
  assumes readable: "fs p = Readable st ls"
  shows "\<exists>s. buildSessionSummary h fs root p n = Inr (Some s)
       \<and> (startLocalOf h (firstLineMeta ls) = None \<longrightarrow> timeLabel s = str ''--:--'')
       \<and> ((ls = [] \<or> (\<exists>rest. ls = Blank # rest) \<or> (\<exists>rest. ls = Malformed # rest)
            \<or> (\<exists>obj rest. ls = Parsed obj # rest \<and> sessionMetaOf obj = None))
           \<longrightarrow> timeLabel s = str ''--:--'')
       \<and> (\<forall>t. startLocalOf h (firstLineMeta ls) = Some t \<longrightarrow>
              timeLabel s = pad2 (getHours h t) @ str '':'' @ pad2 (getMinutes h t)
              \<and> (getHours h t < 24 \<and> getMinutes h t < 60 \<longrightarrow>
                   (\<exists>hh mm. timeLabel s = hh @ str '':'' @ mm \<and> isDigits 2 hh \<and> isDigits 2 mm)))"
proof -
  define s where "s = summaryOf h root p n st ls"
  have built: "buildSessionSummary h fs root p n = Inr (Some s)"
    unfolding s_def using readable by (rule build_readable)
  have none: "startLocalOf h (firstLineMeta ls) = None \<longrightarrow> timeLabel s = str ''--:--''"
    by (simp add: s_def summaryOf_def)
  have unusable: "timeLabel s = str ''--:--''"
    if "ls = [] \<or> (\<exists>rest. ls = Blank # rest) \<or> (\<exists>rest. ls = Malformed # rest)
            \<or> (\<exists>obj rest. ls = Parsed obj # rest \<and> sessionMetaOf obj = None)"
  proof -
    have "firstLineMeta ls = noMeta"
      using that by (auto simp: firstLineMeta_unusable)
    then show ?thesis
      using none by (simp add: startLocalOf_noMeta)
  qed
  have some: "timeLabel s = pad2 (getHours h t) @ str '':'' @ pad2 (getMinutes h t)"
    if "startLocalOf h (firstLineMeta ls) = Some t" for t
    using that by (simp add: s_def summaryOf_def formatTimeHmLocal_def)
  have shape: "\<exists>hh mm. timeLabel s = hh @ str '':'' @ mm \<and> isDigits 2 hh \<and> isDigits 2 mm"
    if "startLocalOf h (firstLineMeta ls) = Some t" "getHours h t < 24" "getMinutes h t < 60" for t
    using some [OF that(1)] pad2_shape [of "getHours h t"] pad2_shape [of "getMinutes h t"] that(2,3)
    by auto
  have parsed: "\<forall>t. startLocalOf h (firstLineMeta ls) = Some t \<longrightarrow>
              timeLabel s = pad2 (getHours h t) @ str '':'' @ pad2 (getMinutes h t)
              \<and> (getHours h t < 24 \<and> getMinutes h t < 60 \<longrightarrow>
                   (\<exists>hh mm. timeLabel s = hh @ str '':'' @ mm \<and> isDigits 2 hh \<and> isDigits 2 mm))"
    using some shape by blast
  show ?thesis
    using built none unusable parsed by (intro exI [of _ s]) blast
qed

theorem C10_time_label_witness:
  "(\<exists>s. buildSessionSummary utcHost
            (oneFile (looseFile homeRoot) (Readable june1st (rolloutA ''type'')))
            homeRoot (looseFile homeRoot) 6 = Inr (Some s)
         \<and> timeLabel s = str ''10:00'')
   \<and> (\<exists>s. buildSessionSummary utcHost
            (oneFile (looseFile homeRoot) (Readable june1st [Malformed]))
            homeRoot (looseFile homeRoot) 6 = Inr (Some s)
         \<and> timeLabel s = str ''--:--'')"
proof -
  have one: "\<exists>s. buildSessionSummary utcHost
            (oneFile (looseFile homeRoot) (Readable june1st (rolloutA ''type'')))
            homeRoot (looseFile homeRoot) 6 = Inr (Some s)
         \<and> timeLabel s = str ''10:00''"
    using C10_time_label
      [of "oneFile (looseFile homeRoot) (Readable june1st (rolloutA ''type''))"
          "looseFile homeRoot" june1st "rolloutA ''type''" utcHost homeRoot 6]
      start_rolloutA label_of_start
    by (metis oneFile_def)
  have two: "\<exists>s. buildSessionSummary utcHost
            (oneFile (looseFile homeRoot) (Readable june1st [Malformed]))
            homeRoot (looseFile homeRoot) 6 = Inr (Some s)
         \<and> timeLabel s = str ''--:--''"
    using C10_time_label
      [of "oneFile (looseFile homeRoot) (Readable june1st [Malformed])"
          "looseFile homeRoot" june1st "[Malformed]" utcHost homeRoot 6]
    by (metis oneFile_def)
  show ?thesis
    using one two by blast
qed

section \<open>The cap on the number of hits\<close>

text \<open>
  C3 (as amended). In a search whose token is never set and whose candidates' files all
  open, the search returns a result whose \<open>totalHits\<close> is the smaller of \<open>maxResults\<close> and
  the number of matching messages of all candidates: exactly \<open>maxResults\<close> when there are
  more. Once the cap is met nothing more is recorded, and a scan that meets a line then
  leaves its file at that line. The outer loop goes on: every candidate is still opened.
  When the file of a candidate cannot be opened, the search ends in that error and returns
  no result, also when the cap was met before that candidate.
\<close>

theorem C3_search_cap:
  assumes never: "\<forall>n. \<not> token ps n"
  shows "((\<forall>s\<in>set (sessions ps). c (fsPath s) \<noteq> None) \<longrightarrow>
          (\<exists>r. searchSessions h c ps = Inr (Some r)
             \<and> resultTotalHits r
                 = min (maxResults ps) (length (allHits h (linesOf c) ps (sessions ps)))
             \<and> (maxResults ps < length (allHits h (linesOf c) ps (sessions ps))
                  \<longrightarrow> resultTotalHits r = maxResults ps)
             \<and> openedFiles (events (searchRun h c ps)) = map fsPath (sessions ps)))
     \<and> ((\<exists>s\<in>set (sessions ps). c (fsPath s) = None)
          \<longrightarrow> searchSessions h c ps = Inl OpenFailed)
     \<and> (\<forall>s k st l ls. maxResults ps \<le> totalHits st
           \<longrightarrow> scanLines h ps s k st (l # ls) = st\<lparr>checks := Suc (checks st)\<rparr>)"
proof -
  have opened: "\<exists>r. searchSessions h c ps = Inr (Some r)
             \<and> resultTotalHits r
                 = min (maxResults ps) (length (allHits h (linesOf c) ps (sessions ps)))
             \<and> (maxResults ps < length (allHits h (linesOf c) ps (sessions ps))
                  \<longrightarrow> resultTotalHits r = maxResults ps)
             \<and> openedFiles (events (searchRun h c ps)) = map fsPath (sessions ps)"
    if opens: "\<forall>s\<in>set (sessions ps). c (fsPath s) \<noteq> None"
  proof -
    have run: "totalHits (searchRun h c ps)
                 = min (maxResults ps) (length (allHits h (linesOf c) ps (sessions ps)))"
      "openedFiles (events (searchRun h c ps)) = map fsPath (sessions ps)"
      "\<not> cancelled (searchRun h c ps)"
      "searchFailure (searchRun h c ps) = None"
      using searchFiles_collects [where ps = ps and st = searchStart and ss = "sessions ps"
          and c = c and h = h and i = 0, OF never _ _ opens]
      by (simp_all add: searchRun_def)
    define r where "r = \<lparr>resultTotalHits = totalHits (searchRun h c ps),
        resultSessions = map (\<lambda>e. e\<lparr>hits := jsSort compareHits (hits e)\<rparr>)
           (jsSort compareSessionHits (map snd (bySession (searchRun h c ps))))\<rparr>"
    have result: "searchSessions h c ps = Inr (Some r)"
      using run(3,4) by (simp add: searchSessions_Some r_def)
    have total: "resultTotalHits r
                 = min (maxResults ps) (length (allHits h (linesOf c) ps (sessions ps)))"
      by (simp add: r_def run(1))
    show ?thesis
      using result total run(2) by (intro exI [of _ r]) simp
  qed
  have unopened: "searchSessions h c ps = Inl OpenFailed"
    if gone: "\<exists>s\<in>set (sessions ps). c (fsPath s) = None"
    using searchFiles_fails [where ps = ps and st = searchStart and ss = "sessions ps"
        and c = c and h = h and i = 0, OF never _ gone]
    by (simp add: searchSessions_failed searchRun_def)
  have atCap: "\<forall>s k st l ls. maxResults ps \<le> totalHits st
           \<longrightarrow> scanLines h ps s k st (l # ls) = st\<lparr>checks := Suc (checks st)\<rparr>"
    using never by (simp add: scanLine_def)
  show ?thesis
    using opened unopened atCap by blast
qed

text \<open>Two candidates whose files open, with one matching message each, and a cap of one;
  and the same with a third candidate whose file is gone.\<close>

theorem C3_search_cap_witness:
  "(\<forall>n. \<not> token (helloSearch 1 (\<lambda>n. False)) n)
   \<and> map (\<lambda>s. corpus (fsPath s) = None) (sessions (helloSearch 1 (\<lambda>n. False))) = [False, False]
   \<and> (\<exists>r. searchSessions utcHost corpus (helloSearch 1 (\<lambda>n. False)) = Inr (Some r)
          \<and> resultTotalHits r = 1
          \<and> openedFiles (events (searchRun utcHost corpus (helloSearch 1 (\<lambda>n. False)))) =
              [datedPath homeRoot, newYearsEvePath homeRoot])
   \<and> (\<forall>n. \<not> token (goneSearch 1 (\<lambda>n. False)) n)
   \<and> map (\<lambda>s. corpus (fsPath s) = None) (sessions (goneSearch 1 (\<lambda>n. False)))
       = [False, False, True]
   \<and> searchSessions utcHost corpus (goneSearch 1 (\<lambda>n. False)) = Inl OpenFailed"
proof -
  have gone: "\<exists>s\<in>set (sessions (goneSearch 1 (\<lambda>n. False))). corpus (fsPath s) = None"
    by (simp add: gone_sessions sessionB_def sessionAt_def corpus_def looseFile_def
          datedPath_def newYearsEvePath_def)
  have first: "\<exists>r. searchSessions utcHost corpus (helloSearch 1 (\<lambda>n. False)) = Inr (Some r)
          \<and> resultTotalHits r = 1
          \<and> openedFiles (events (searchRun utcHost corpus (helloSearch 1 (\<lambda>n. False)))) =
              [datedPath homeRoot, newYearsEvePath homeRoot]"
    using C3_search_cap [OF hello_never, of 1 corpus utcHost, THEN conjunct1]
      hello_opens [of 1 "\<lambda>n. False"] hello_two_matches
    by (auto simp: hello_sessions hello_maxResults sessionA_def sessionC_def sessionAt_def)
  have second: "searchSessions utcHost corpus (goneSearch 1 (\<lambda>n. False)) = Inl OpenFailed"
    using C3_search_cap [OF gone_never, of 1 corpus utcHost, THEN conjunct2, THEN conjunct1] gone
    by blast
  have opened: "map (\<lambda>s. corpus (fsPath s) = None) (sessions (helloSearch 1 (\<lambda>n. False)))
      = [False, False]"
    and unopened: "map (\<lambda>s. corpus (fsPath s) = None) (sessions (goneSearch 1 (\<lambda>n. False)))
      = [False, False, True]"
    by code_simp+
  show ?thesis
    using hello_never opened gone_never unopened first second by (intro conjI)
qed

text \<open>
  C3 as stated fails where it says that the whole search stops. With two candidates that
  hold one matching message each and \<open>maxResults = 1\<close>, the hit of the first file meets the
  cap, and the second file is still announced and opened. A token set only from its read
  number 3 on, that is after the scan of the first file has recorded the hit, makes the
  search return \<open>null\<close> at the boundary of the second file. With a third candidate whose
  file is gone, the search still goes to that file and ends in the error of its opening.
\<close>

theorem C3_search_goes_on_counterexample:
  "totalHits (searchRun utcHost corpus (helloSearch 1 (\<lambda>n. False))) = 1
   \<and> length (allHits utcHost (linesOf corpus) (helloSearch 1 (\<lambda>n. False)) [sessionA, sessionC]) = 2
   \<and> events (searchRun utcHost corpus (helloSearch 1 (\<lambda>n. False))) =
       [Report 1 2, Opened (datedPath homeRoot), Report 2 2, Opened (newYearsEvePath homeRoot)]
   \<and> totalHits (scanLines utcHost (helloSearch 1 (\<lambda>n. 3 \<le> n)) sessionA 0
                  (startFile (helloSearch 1 (\<lambda>n. 3 \<le> n)) 0 sessionA searchStart)
                  (linesOf corpus (fsPath sessionA))) = 1
   \<and> searchSessions utcHost corpus (helloSearch 1 (\<lambda>n. 3 \<le> n)) = Inr None
   \<and> searchSessions utcHost corpus (goneSearch 1 (\<lambda>n. False)) = Inl OpenFailed"
  by code_simp

section \<open>The display index of a hit\<close>

text \<open>
  C4 (as amended). The counter of a file counts the lines that are messages of role user
  or assistant with a normalised text that is not empty, whether they match or not: the
  hit of a matching line carries 1 plus the number of such lines before it in the file.
  In every result the hits of a session are in ascending order of their index; when the
  candidates have distinct cache keys, the sessions of the result are the entries
  \<open>collected\<close>, sorted newest first, each with the first hits of its file that fit under
  the cap.
\<close>

theorem C4_display_index:
  assumes result: "searchSessions h c ps = Inr (Some r)"
  shows "(\<forall>e\<in>set (resultSessions r). sorted_wrt (\<lambda>a b. messageIndex a \<le> messageIndex b) (hits e))
     \<and> (distinct (map cacheKey (sessions ps)) \<longrightarrow>
          resultSessions r = jsSort compareSessionHits (collected h (linesOf c) ps (maxResults ps) (sessions ps)))
     \<and> (\<forall>xs l ys ro body hitAt.
          searchableMessage l = Some (ro, body) \<and> matchAt h ps body = Some hitAt \<longrightarrow>
          fileHits h ps 0 (xs @ l # ys) =
            fileHits h ps 0 xs
            @ makeHit ps (Suc (length (List.map_filter searchableMessage xs))) ro body hitAt
            # fileHits h ps (Suc (length (List.map_filter searchableMessage xs))) ys)"
proof -
  have running: "\<not> cancelled (searchRun h c ps)"
    and unfailed: "searchFailure (searchRun h c ps) = None"
    using result by (simp_all add: searchSessions_Some)
  have opens: "\<forall>s\<in>set (sessions ps). c (fsPath s) \<noteq> None"
    using running unfailed by (rule searchRun_all_opened)
  have calm: "quiet (token ps) 0 (checks (searchRun h c (uninterrupted ps)))"
    using running searchRun_interrupted [of ps h c] by blast
  have same: "searchRun h c ps = searchRun h c (uninterrupted ps)"
    using calm by (rule searchRun_quiet(1))
  have r: "resultSessions r = map (\<lambda>e. e\<lparr>hits := jsSort compareHits (hits e)\<rparr>)
         (jsSort compareSessionHits (map snd (bySession (searchRun h c ps))))"
    using result by (simp add: searchSessions_Some)
  have ordered: "sorted_wrt (\<lambda>a b. messageIndex a \<le> messageIndex b) (hits e)"
    if "e \<in> set (resultSessions r)" for e
  proof -
    have "e \<in> (\<lambda>e. e\<lparr>hits := jsSort compareHits (hits e)\<rparr>)
                ` set (jsSort compareSessionHits (map snd (bySession (searchRun h c ps))))"
      using that by (simp only: r set_map)
    then obtain e0 where "e = e0\<lparr>hits := jsSort compareHits (hits e0)\<rparr>"
      by (rule imageE)
    then have "hits e = jsSort compareHits (hits e0)"
      by simp
    moreover have "sorted_wrt (\<lambda>a b. compareHits a b \<le> 0) (jsSort compareHits (hits e0))"
      using keyComparator_compareHits by (rule sorted_jsSort)
    ultimately show ?thesis
      by (simp add: compareHits_def)
  qed
  have exact: "resultSessions r =
      jsSort compareSessionHits (collected h (linesOf c) ps (maxResults ps) (sessions ps))"
    if keys: "distinct (map cacheKey (sessions ps))"
  proof -
    have "map snd (bySession (searchRun h c (uninterrupted ps))) =
        collected h (linesOf c) ps (maxResults ps) (sessions ps)"
      using searchFiles_entries [where ps = "uninterrupted ps" and st = searchStart
          and ss = "sessions ps" and c = c and h = h and i = 0, OF never_uninterrupted] keys opens
      by (simp add: searchRun_uninterrupted)
    then have entries: "map snd (bySession (searchRun h c ps)) =
        collected h (linesOf c) ps (maxResults ps) (sessions ps)"
      by (simp add: same)
    have "e\<lparr>hits := jsSort compareHits (hits e)\<rparr> = e"
      if "e \<in> set (jsSort compareSessionHits (collected h (linesOf c) ps (maxResults ps) (sessions ps)))" for e
      using that collected_ascending [of e h "linesOf c" ps "maxResults ps" "sessions ps"]
      by (simp add: jsSort_hits_ascending)
    then have "map (\<lambda>e. e\<lparr>hits := jsSort compareHits (hits e)\<rparr>)
        (jsSort compareSessionHits (collected h (linesOf c) ps (maxResults ps) (sessions ps))) =
        jsSort compareSessionHits (collected h (linesOf c) ps (maxResults ps) (sessions ps))"
      by (intro map_idI) blast
    then show ?thesis
      unfolding r entries .
  qed
  have numbered: "fileHits h ps 0 (xs @ l # ys) =
            fileHits h ps 0 xs
            @ makeHit ps (Suc (length (List.map_filter searchableMessage xs))) ro body hitAt
            # fileHits h ps (Suc (length (List.map_filter searchableMessage xs))) ys"
    if "searchableMessage l = Some (ro, body)" "matchAt h ps body = Some hitAt"
    for xs l ys ro body hitAt
    using that by (simp add: fileHits_append)
  show ?thesis
    using ordered exact numbered by blast
qed
theorem C4_display_index_witness:
  "\<exists>r. searchSessions utcHost corpus (helloSearch 5 (\<lambda>n. False)) = Inr (Some r)
      \<and> distinct (map cacheKey (sessions (helloSearch 5 (\<lambda>n. False))))
      \<and> resultSessions r =
          jsSort compareSessionHits
            (collected utcHost (linesOf corpus) (helloSearch 5 (\<lambda>n. False)) 5 [sessionA, sessionC])"
proof -
  obtain r where r: "searchSessions utcHost corpus (helloSearch 5 (\<lambda>n. False)) = Inr (Some r)"
  proof (cases "searchSessions utcHost corpus (helloSearch 5 (\<lambda>n. False))")
    case (Inl e)
    with hello_found show ?thesis by simp
  next
    case (Inr x)
    with hello_found that show ?thesis by (cases x) simp_all
  qed
  show ?thesis
    using C4_display_index [OF r] r hello_keys
    by (simp add: hello_sessions hello_maxResults)
qed

text \<open>
  C4 as stated fails on a message without text. The file of the second candidate holds an
  assistant message whose text is empty and then a user message "hello again"; both lines
  are message records of role user or assistant, the first is not counted, and the hit on
  the second carries the index 1, not 2.
\<close>

theorem C4_empty_message_counterexample:
  "map isMessageRecord (linesOf corpus (newYearsEvePath homeRoot)) = [True, True]
   \<and> map searchableMessage (linesOf corpus (newYearsEvePath homeRoot)) =
       [None, Some (User, str ''hello again'')]
   \<and> map_sum id (map_option (\<lambda>r. map (\<lambda>e. (fsPath (session e), hits e)) (resultSessions r)))
        (searchSessions utcHost corpus (helloSearch 5 (\<lambda>n. False))) =
      Inr (Some [(datedPath homeRoot,
               [\<lparr>messageIndex = 1, hitRole = User, hitSnippet = str ''hello world''\<rparr>]),
            (newYearsEvePath homeRoot,
               [\<lparr>messageIndex = 1, hitRole = User, hitSnippet = str ''hello again''\<rparr>])])"
  by code_simp

section \<open>Cancellation\<close>

text \<open>
  C5. The search returns \<open>null\<close> exactly when the token reads set at one of the reads that
  the run makes, which are those of the uninterrupted run up to there: one at the start of
  each file and one at each line, before the cap is tested and before the line is looked
  at. At such a read the loops return at once, with nothing recorded or reported after
  it; a token set at the first read, before any file, gives \<open>null\<close> with no file opened
  and no progress reported.
\<close>

theorem C5_cancellation:
  "(searchSessions h c ps = Inr None
      \<longleftrightarrow> (\<exists>n < checks (searchRun h c (uninterrupted ps)). token ps n))
   \<and> (sessions ps \<noteq> [] \<and> token ps 0
        \<longrightarrow> searchSessions h c ps = Inr None \<and> events (searchRun h c ps) = [])
   \<and> (\<forall>i st s rest. token ps (checks st)
        \<longrightarrow> searchFiles h c ps i st (s # rest) = st\<lparr>checks := Suc (checks st), cancelled := True\<rparr>)
   \<and> (\<forall>s k st l ls. token ps (checks st)
        \<longrightarrow> scanLines h ps s k st (l # ls) = st\<lparr>checks := Suc (checks st), cancelled := True\<rparr>)"
proof -
  have "cancelled (searchRun h c ps)
      \<longleftrightarrow> \<not> quiet (token ps) 0 (checks (searchRun h c (uninterrupted ps)))"
    using searchRun_quiet(2) [of ps h c] searchRun_interrupted [of ps h c] by blast
  then have iff: "searchSessions h c ps = Inr None
      \<longleftrightarrow> (\<exists>n < checks (searchRun h c (uninterrupted ps)). token ps n)"
    unfolding searchSessions_None by (auto simp: quiet_def)
  have atStart: "searchSessions h c ps = Inr None \<and> events (searchRun h c ps) = []"
    if "sessions ps \<noteq> []" "token ps 0"
    using that
    by (cases "sessions ps") (simp_all add: searchSessions_None searchRun_def searchStart_def)
  have boundary: "\<forall>i st s rest. token ps (checks st)
        \<longrightarrow> searchFiles h c ps i st (s # rest) = st\<lparr>checks := Suc (checks st), cancelled := True\<rparr>"
    by simp
  have line: "\<forall>s k st l ls. token ps (checks st)
        \<longrightarrow> scanLines h ps s k st (l # ls) = st\<lparr>checks := Suc (checks st), cancelled := True\<rparr>"
    by (simp add: scanLine_cancel)
  show ?thesis
    using iff atStart boundary line by blast
qed
theorem C5_cancellation_witness:
  "token (helloSearch 5 (\<lambda>n. 1 \<le> n)) 1
   \<and> 1 < checks (searchRun utcHost corpus (uninterrupted (helloSearch 5 (\<lambda>n. 1 \<le> n))))
   \<and> searchSessions utcHost corpus (helloSearch 5 (\<lambda>n. 1 \<le> n)) = Inr None
   \<and> sessions (helloSearch 5 (\<lambda>n. True)) \<noteq> [] \<and> token (helloSearch 5 (\<lambda>n. True)) 0
   \<and> searchSessions utcHost corpus (helloSearch 5 (\<lambda>n. True)) = Inr None
   \<and> events (searchRun utcHost corpus (helloSearch 5 (\<lambda>n. True))) = []"
proof -
  have set: "token (helloSearch 5 (\<lambda>n. 1 \<le> n)) 1"
    by (simp add: hello_token)
  have reads: "1 < checks (searchRun utcHost corpus (uninterrupted (helloSearch 5 (\<lambda>n. 1 \<le> n))))"
    unfolding hello_reads by simp
  have seen: "\<exists>n < checks (searchRun utcHost corpus (uninterrupted (helloSearch 5 (\<lambda>n. 1 \<le> n)))).
      token (helloSearch 5 (\<lambda>n. 1 \<le> n)) n"
    using set reads by blast
  have inLine: "searchSessions utcHost corpus (helloSearch 5 (\<lambda>n. 1 \<le> n)) = Inr None"
    using C5_cancellation [of utcHost corpus "helloSearch 5 (\<lambda>n. 1 \<le> n)", THEN conjunct1] seen
    by (rule iffD2)
  have some: "sessions (helloSearch 5 (\<lambda>n. True)) \<noteq> []"
    and first: "token (helloSearch 5 (\<lambda>n. True)) 0"
    by (simp_all add: hello_sessions hello_token)
  have atStart: "searchSessions utcHost corpus (helloSearch 5 (\<lambda>n. True)) = Inr None
      \<and> events (searchRun utcHost corpus (helloSearch 5 (\<lambda>n. True))) = []"
    using C5_cancellation [of utcHost corpus "helloSearch 5 (\<lambda>n. True)",
        THEN conjunct2, THEN conjunct1] some first
    by blast
  show ?thesis
    using set reads inLine some first atStart by blast
qed

section \<open>C9: the order of the sessions and the buckets of the index\<close>

text \<open>
  C9 fails on a year of fewer than four digits, which \<open>ymdToString\<close> writes without
  padding. A session whose first line gives the start time \<open>0999-06-01T10:00:00Z\<close>, in a
  file outside the dated directories, has the display date \<open>999-06-01\<close>: its year key
      \<open>999\<close>
  has three characters, and in the flat list it comes before the session of 2024-05-01,
  which is a thousand years later.
\<close>

theorem C9_unpadded_year:
  "fst (refresh utcHost (oneDocument oldCache) oldAndNew storageUri homeConfig (str ''UTC'')
        (Some bothFiles) True Completed cachedWorld) = Inr ()
   \<and> map (\<lambda>s. (basename (fsPath s), localDate s, timeLabel s)) (indexSessions (index
       (snd (refresh utcHost (oneDocument oldCache) oldAndNew storageUri homeConfig (str ''UTC'')
        (Some bothFiles) True Completed cachedWorld))))
       = [(str ''rollout-B.jsonl'', str ''999-06-01'', str ''10:00''),
          (str ''rollout-A.jsonl'', str ''2024-05-01'', str ''10:00'')]
   \<and> map (\<lambda>s. basename (fsPath s))
         (dayBucket (index (snd (refresh utcHost (oneDocument oldCache) oldAndNew storageUri
             homeConfig (str ''UTC'')
        (Some bothFiles) True Completed cachedWorld))) (str ''999'') (str ''06'') (str ''01''))
       = [str ''rollout-B.jsonl'']
   \<and> \<not> isDigits 4 (str ''999'')
   \<and> strLess (str ''2024-05-01'') (str ''999-06-01'')"
  by code_simp

text \<open>
  What holds of C9, in the index that a refresh leaves when it does not end in the error
  of an opening:

  \<^item> the flat list is in the order of the display dates as strings, the greater string
    first, and of the time labels, the greater first, among equal dates; for two dates of
    the form \<open>YYYY-MM-DD\<close> (four, two and two digits) the order of the strings is the
        order
    of the dates;

  \<^item> the day bucket of a year, month and day key holds the sessions of the flat list whose
    display date gives these three keys (its first three parts between hyphens, none of
    them empty), sorted by time label, the greater first; so a session whose display date
    has the form \<open>YYYY-MM-DD\<close> is in the bucket of its year, month and day and in no
        other;

  \<^item> when every display date has the form \<open>YYYY-MM-DD\<close>, every year key has
      four digits
    and every month and day key has two.
\<close>

theorem index_invariants:
  assumes run: "refresh h cod fs g cfg dateTimeSettingsKey found forceRebuildCache outcome w
                  = (res, w')"
    and ok: "res \<noteq> Inl OpenFailed"
  shows "(\<forall>i j. i < length (indexSessions (index w')) \<and> j < length (indexSessions
      (index w')) \<longrightarrow>
             (strLess (localDate (indexSessions (index w') ! j))
                      (localDate (indexSessions (index w') ! i))
                \<longrightarrow> i < j)
           \<and> (localDate (indexSessions (index w') ! i) = localDate (indexSessions (index w')
               ! j)
                \<and> strLess (timeLabel (indexSessions (index w') ! j))
                           (timeLabel (indexSessions (index w') ! i))
                \<longrightarrow> i < j))
       \<and> (\<forall>a b. isYmdString a \<and> isYmdString b
             \<longrightarrow> (strLess a b \<longleftrightarrow> ymdBefore (ymdOf a) (ymdOf b)))
       \<and> (\<forall>y m d. dayBucket (index w') y m d
             = jsSort compareTimeLabel
                 (filter (\<lambda>s. dateKeys (localDate s) = Some (y, m, d))
                    (indexSessions (index w'))))
       \<and> (\<forall>s\<in>set (indexSessions (index w')). isYmdString (localDate s)
           \<longrightarrow>
             (\<forall>y m d. s \<in> set (dayBucket (index w') y m d) \<longleftrightarrow>
                y = take 4 (localDate s) \<and> m = take 2 (drop 5 (localDate s))
                \<and> d = drop 8 (localDate s)))
       \<and> (\<forall>y m d. sorted_wrt (\<lambda>a b. \<not> strLess (timeLabel a) (timeLabel b))
                     (dayBucket (index w') y m d))
       \<and> ((\<forall>s\<in>set (indexSessions (index w')). isYmdString (localDate s))
           \<longrightarrow>
             (\<forall>y months. byY (index w') y = Some months \<longrightarrow>
                isDigits 4 y
                \<and> (\<forall>m days. months m = Some days \<longrightarrow>
                      isDigits 2 m \<and> (\<forall>d l. days d = Some l \<longrightarrow>
                          isDigits 2 d))))"
proof -
  obtain ss where idx: "index w' = buildIndex (sessionsRoot cfg) (jsSort compareSessions ss)"
    using refresh_index [OF run ok] by blast
  note I = buildIndex_invariants [OF idx]
  have members: "set (indexSessions (index w')) = set ss"
    by (rule I [THEN conjunct1])
  note rest = I [THEN conjunct2, THEN conjunct2]
  show ?thesis
    unfolding members by (rule rest)
qed

text \<open>The refresh over the file of May 1st 2024, reused from the cache, and a file dated
  by its modification time on June 1st 2024.\<close>

theorem index_invariants_witness:
  "fst (refresh utcHost (oneDocument oldCache) twoFiles storageUri homeConfig (str ''UTC'')
        (Some threeFiles) False Completed cachedWorld) \<noteq> Inl OpenFailed
   \<and> map localDate (indexSessions (index (snd (refresh utcHost (oneDocument oldCache)
       twoFiles storageUri homeConfig (str ''UTC'')
        (Some threeFiles) False Completed cachedWorld)))) = [str ''2024-06-01'', str ''2024-05-01'']
   \<and> map (\<lambda>s. isYmdString (localDate s))
         (indexSessions (index (snd (refresh utcHost (oneDocument oldCache) twoFiles storageUri
             homeConfig (str ''UTC'')
        (Some threeFiles) False Completed cachedWorld))))
       = [True, True]
   \<and> sessionA \<in> set (indexSessions (index (snd (refresh utcHost (oneDocument oldCache)
       twoFiles storageUri homeConfig (str ''UTC'')
        (Some threeFiles) False Completed cachedWorld))))
   \<and> sessionA \<in> set (dayBucket (index (snd (refresh utcHost (oneDocument oldCache)
       twoFiles storageUri homeConfig (str ''UTC'')
        (Some threeFiles) False Completed cachedWorld))) (str ''2024'') (str ''05'') (str ''01''))
   \<and> sessionA \<notin> set (dayBucket (index (snd (refresh utcHost (oneDocument oldCache)
       twoFiles storageUri homeConfig (str ''UTC'')
        (Some threeFiles) False Completed cachedWorld))) (str ''2024'') (str ''06'') (str ''01''))
   \<and> (\<exists>months. byY (index (snd (refresh utcHost (oneDocument oldCache) twoFiles
       storageUri homeConfig (str ''UTC'')
        (Some threeFiles) False Completed cachedWorld))) (str ''2024'') = Some months)
   \<and> isDigits 4 (str ''2024'')
   \<and> ymdBefore (ymdOf (str ''2024-05-01'')) (ymdOf (str ''2024-06-01''))"
proof -
  obtain res w' where run: "(refresh utcHost (oneDocument oldCache) twoFiles storageUri
      homeConfig (str ''UTC'')
        (Some threeFiles) False Completed cachedWorld) = (res, w')"
    by (cases "(refresh utcHost (oneDocument oldCache) twoFiles storageUri homeConfig (str ''UTC'')
        (Some threeFiles) False Completed cachedWorld)")
  have w: "snd (refresh utcHost (oneDocument oldCache) twoFiles storageUri homeConfig (str ''UTC'')
        (Some threeFiles) False Completed cachedWorld) = w'" using run by simp
  have "fst (refresh utcHost (oneDocument oldCache) twoFiles storageUri homeConfig (str ''UTC'')
        (Some threeFiles) False Completed cachedWorld) = Inr ()" by code_simp
  then have ok: "res \<noteq> Inl OpenFailed" by (simp add: run)
  note T = index_invariants [OF run ok]
  have dates: "map localDate (indexSessions (index (snd (refresh utcHost (oneDocument oldCache)
      twoFiles storageUri homeConfig (str ''UTC'')
        (Some threeFiles) False Completed cachedWorld)))) = [str ''2024-06-01'', str
            ''2024-05-01'']"
    by code_simp
  have wf: "\<forall>s\<in>set (indexSessions (index (snd (refresh utcHost (oneDocument oldCache)
      twoFiles storageUri homeConfig (str ''UTC'')
        (Some threeFiles) False Completed cachedWorld)))). isYmdString (localDate s)"
    by code_simp
  have wfs: "map (\<lambda>s. isYmdString (localDate s))
         (indexSessions (index (snd (refresh utcHost (oneDocument oldCache) twoFiles storageUri
             homeConfig (str ''UTC'')
        (Some threeFiles) False Completed cachedWorld))))
       = [True, True]"
    by code_simp
  have inA: "sessionA \<in> set (indexSessions (index (snd (refresh utcHost (oneDocument
      oldCache) twoFiles storageUri homeConfig (str ''UTC'')
        (Some threeFiles) False Completed cachedWorld))))"
    by code_simp
  have parts: "take 4 (localDate sessionA) = str ''2024''"
    "take 2 (drop 5 (localDate sessionA)) = str ''05''" "drop 8 (localDate sessionA) = str ''01''"
    "str ''06'' \<noteq> str ''05''" "isYmdString (str ''2024-05-01'')" "isYmdString (str
        ''2024-06-01'')"
    "strLess (str ''2024-05-01'') (str ''2024-06-01'')"
    by code_simp+
  have key: "case byY (index (snd (refresh utcHost (oneDocument oldCache) twoFiles storageUri
      homeConfig (str ''UTC'')
        (Some threeFiles) False Completed cachedWorld))) (str ''2024'') of None \<Rightarrow>
            False | Some months \<Rightarrow> True"
    by code_simp
  then obtain months where months: "byY (index w') (str ''2024'') = Some months"
    unfolding w by (cases "byY (index w') (str ''2024'')") simp_all
  note own = T [THEN conjunct2, THEN conjunct2, THEN conjunct2, THEN conjunct1, rule_format,
      OF inA [unfolded w] wf [unfolded w, rule_format, OF inA [unfolded w]]]
  have a: "sessionA \<in> set (dayBucket (index w') (str ''2024'') (str ''05'') (str ''01''))"
    using own [of "str ''2024''" "str ''05''" "str ''01''"] parts(1-3) by simp
  have b: "sessionA \<notin> set (dayBucket (index w') (str ''2024'') (str ''06'') (str ''01''))"
    using own [of "str ''2024''" "str ''06''" "str ''01''"] parts(1-4) by simp
  have c: "isDigits 4 (str ''2024'')"
    by (rule T [THEN conjunct2, THEN conjunct2, THEN conjunct2, THEN conjunct2, THEN conjunct2,
          THEN mp, OF wf [unfolded w], THEN spec, THEN spec, THEN mp, OF months, THEN conjunct1])
  have d: "ymdBefore (ymdOf (str ''2024-05-01'')) (ymdOf (str ''2024-06-01''))"
    using T [THEN conjunct2, THEN conjunct1, rule_format,
        of "str ''2024-05-01''" "str ''2024-06-01''"] parts(5-7) by blast
  have e: "\<exists>months. byY (index w') (str ''2024'') = Some months"
    using months by (rule exI [of _ months])
  show ?thesis
    unfolding run fst_conv snd_conv
    using ok dates [unfolded run snd_conv] wfs [unfolded run snd_conv] inA [unfolded run snd_conv]
      a b e c d
    by (intro conjI)
qed

section \<open>C6: reuse of cached summaries\<close>




section \<open>C2: the save of the cache file\<close>

text \<open>
  C2 (as amended). A refresh saves the cache with one \<open>writeFile\<close> of the whole text
      of the
  new document to the cache file itself, after its pass over the discovered paths has run
  to its end; a pass that ends in an error writes nothing, and no other file of global
  storage is written, so there is no temporary file and no rename. What a write leaves is
  what \<open>writeFile\<close> leaves: the text of the document when it completes; when it fails
  after a part of the text, that part, in the place of the cache that was there. A reader
  of a part that does not parse gets \<open>null\<close> from \<open>readJson\<close>, and the
      next refresh takes the
  cache as empty.
\<close>

theorem C2_cache_save:
  assumes run: "refresh h cod fs g cfg dateTimeSettingsKey (Some files) forceRebuildCache outcome w
                  = (res, w')"
  shows "(\<forall>u. u \<noteq> cacheUri g \<longrightarrow> globalStorage w' u = globalStorage
      w u)
     \<and> (res = Inl OpenFailed \<longrightarrow> globalStorage w' = globalStorage w)
     \<and> (res \<noteq> Inl OpenFailed \<longrightarrow>
          (\<exists>doc. writeJson cod outcome (cacheUri g) doc (globalStorage w) = (res,
              globalStorage w')
             \<and> writeJson cod outcome (cacheUri g) doc (globalStorage w)
                 = writeFile outcome (cacheUri g) (stringify cod doc) (globalStorage w)
             \<and> (outcome = Completed \<longrightarrow>
                   res = Inr () \<and> globalStorage w' (cacheUri g) = Some (stringify cod doc))
             \<and> (\<forall>n. outcome = FailedAfter n \<longrightarrow>
                   res = Inl WriteFailed
                   \<and> globalStorage w' (cacheUri g) = Some (take n (stringify cod doc))
                   \<and> (parse cod (take n (stringify cod doc)) = None \<longrightarrow>
                        readJson cod (cacheUri g) (globalStorage w') = None
                        \<and> (\<forall>k. cachedEntriesOf cfg dateTimeSettingsKey
                                  (readJson cod (cacheUri g) (globalStorage w')) k = None)))))"
proof -
  define st where "st = passOf h cod fs g cfg dateTimeSettingsKey files forceRebuildCache w"
  define doc where "doc = documentOf cfg dateTimeSettingsKey st"
  note ran = run [unfolded refresh_Some, folded st_def, folded doc_def]
  show ?thesis
  proof (cases "failure st")
    case (Some e)
    then have e: "e = OpenFailed" unfolding st_def by (rule passOf_error)
    from ran Some have "res = Inl e" and "globalStorage w' = globalStorage w" by auto
    with e show ?thesis by simp
  next
    case None
    obtain store' where wr: "writeJson cod outcome (cacheUri g) doc (globalStorage w) = (res,
        store')"
      and w': "globalStorage w' = store'"
      using ran None by (auto split: prod.splits)
    have wf: "writeFile outcome (cacheUri g) (stringify cod doc) (globalStorage w) = (res, store')"
      using wr by (simp add: writeJson_def)
    have ok: "res \<noteq> Inl OpenFailed"
      using writeFile_result [of outcome "cacheUri g" "stringify cod doc" "globalStorage w"] wf
      by simp
    have elsewhere: "\<forall>u. u \<noteq> cacheUri g \<longrightarrow> globalStorage w' u =
        globalStorage w u"
      using writeFile_elsewhere [of _ "cacheUri g" outcome "stringify cod doc" "globalStorage w"] wf
      by (simp add: w')
    have completed: "res = Inr () \<and> globalStorage w' (cacheUri g) = Some (stringify cod doc)"
      if "outcome = Completed"
      using wf that by (auto simp: writeFile_outcome w')
    have failed: "res = Inl WriteFailed
                   \<and> globalStorage w' (cacheUri g) = Some (take n (stringify cod doc))
                   \<and> (parse cod (take n (stringify cod doc)) = None \<longrightarrow>
                        readJson cod (cacheUri g) (globalStorage w') = None
                        \<and> (\<forall>k. cachedEntriesOf cfg dateTimeSettingsKey
                                  (readJson cod (cacheUri g) (globalStorage w')) k = None))"
      if "outcome = FailedAfter n" for n
    proof -
      from wf that have r: "res = Inl WriteFailed"
        and s: "globalStorage w' (cacheUri g) = Some (take n (stringify cod doc))"
        by (auto simp: writeFile_outcome w')
      have "readJson cod (cacheUri g) (globalStorage w') = None
                        \<and> (\<forall>k. cachedEntriesOf cfg dateTimeSettingsKey
                                  (readJson cod (cacheUri g) (globalStorage w')) k = None)"
        if "parse cod (take n (stringify cod doc)) = None"
        using that s by (simp add: readJson_def cachedEntriesOf_def)
      with r s show ?thesis by blast
    qed
    have "writeJson cod outcome (cacheUri g) doc (globalStorage w) = (res, globalStorage w')
             \<and> writeJson cod outcome (cacheUri g) doc (globalStorage w)
                 = writeFile outcome (cacheUri g) (stringify cod doc) (globalStorage w)
             \<and> (outcome = Completed \<longrightarrow>
                   res = Inr () \<and> globalStorage w' (cacheUri g) = Some (stringify cod doc))
             \<and> (\<forall>n. outcome = FailedAfter n \<longrightarrow>
                   res = Inl WriteFailed
                   \<and> globalStorage w' (cacheUri g) = Some (take n (stringify cod doc))
                   \<and> (parse cod (take n (stringify cod doc)) = None \<longrightarrow>
                        readJson cod (cacheUri g) (globalStorage w') = None
                        \<and> (\<forall>k. cachedEntriesOf cfg dateTimeSettingsKey
                                  (readJson cod (cacheUri g) (globalStorage w')) k = None)))"
      using wr [folded w'] completed failed writeJson_def [of cod outcome "cacheUri g" doc
          "globalStorage w"]
      by (intro conjI allI impI) blast+
    then have "\<exists>doc. writeJson cod outcome (cacheUri g) doc (globalStorage w) = (res,
        globalStorage w')
             \<and> writeJson cod outcome (cacheUri g) doc (globalStorage w)
                 = writeFile outcome (cacheUri g) (stringify cod doc) (globalStorage w)
             \<and> (outcome = Completed \<longrightarrow>
                   res = Inr () \<and> globalStorage w' (cacheUri g) = Some (stringify cod doc))
             \<and> (\<forall>n. outcome = FailedAfter n \<longrightarrow>
                   res = Inl WriteFailed
                   \<and> globalStorage w' (cacheUri g) = Some (take n (stringify cod doc))
                   \<and> (parse cod (take n (stringify cod doc)) = None \<longrightarrow>
                        readJson cod (cacheUri g) (globalStorage w') = None
                        \<and> (\<forall>k. cachedEntriesOf cfg dateTimeSettingsKey
                                  (readJson cod (cacheUri g) (globalStorage w')) k = None)))"
      by (rule exI [of _ doc])
    with ok elsewhere show ?thesis by simp
  qed
qed

text \<open>A write that fails after three characters, a write that completes, and a pass that
  ends in the error of an opening.\<close>

theorem C2_cache_save_witness:
  "fst (refresh utcHost (oneDocument oldCache) twoFiles storageUri homeConfig (str ''UTC'')
        (Some bothFiles) False (FailedAfter 3) cachedWorld) = Inl WriteFailed
   \<and> globalStorage (snd (refresh utcHost (oneDocument oldCache) twoFiles storageUri
       homeConfig (str ''UTC'')
        (Some bothFiles) False (FailedAfter 3) cachedWorld)) (cacheUri storageUri) = Some (str
            ''cac'')
   \<and> readJson (oneDocument oldCache) (cacheUri storageUri) (globalStorage (snd (refresh
       utcHost (oneDocument oldCache) twoFiles storageUri homeConfig (str ''UTC'')
        (Some bothFiles) False (FailedAfter 3) cachedWorld))) = None
   \<and> storageUri \<noteq> cacheUri storageUri
   \<and> globalStorage (snd (refresh utcHost (oneDocument oldCache) twoFiles storageUri
       homeConfig (str ''UTC'')
        (Some bothFiles) False (FailedAfter 3) cachedWorld)) storageUri = globalStorage
            cachedWorld storageUri
   \<and> fst (refresh utcHost (oneDocument oldCache) twoFiles storageUri homeConfig (str ''UTC'')
        (Some bothFiles) False Completed cachedWorld) = Inr ()
   \<and> globalStorage (snd (refresh utcHost (oneDocument oldCache) twoFiles storageUri
       homeConfig (str ''UTC'')
        (Some bothFiles) False Completed cachedWorld)) (cacheUri storageUri) = Some (str ''cache'')
   \<and> fst (refresh utcHost (oneDocument oldCache) lockedFirst storageUri homeConfig (str
       ''UTC'')
        (Some [looseFile homeRoot, datedPath homeRoot]) True Completed cachedWorld) = Inl OpenFailed
   \<and> globalStorage (snd (refresh utcHost (oneDocument oldCache) lockedFirst storageUri
       homeConfig (str ''UTC'')
        (Some [looseFile homeRoot, datedPath homeRoot]) True Completed cachedWorld)) =
            globalStorage cachedWorld"
proof -
  have written: "stringify (oneDocument oldCache) doc = str ''cache''" for doc
    by (simp add: oneDocument_def)
  have cut: "take 3 (str ''cache'') = str ''cac''" "str ''cac'' \<noteq> str ''cache''"
    "storageUri \<noteq> cacheUri storageUri"
    by code_simp+
  have unread: "parse (oneDocument oldCache) (str ''cac'') = None"
    using cut(2) by (simp add: oneDocument_def)
  obtain res w' where run: "(refresh utcHost (oneDocument oldCache) twoFiles storageUri
      homeConfig (str ''UTC'')
        (Some bothFiles) False (FailedAfter 3) cachedWorld) = (res, w')"
    by (cases "(refresh utcHost (oneDocument oldCache) twoFiles storageUri homeConfig (str ''UTC'')
        (Some bothFiles) False (FailedAfter 3) cachedWorld)")
  have "fst (refresh utcHost (oneDocument oldCache) twoFiles storageUri homeConfig (str ''UTC'')
        (Some bothFiles) False (FailedAfter 3) cachedWorld) \<noteq> Inl OpenFailed" by code_simp
  then have ok: "res \<noteq> Inl OpenFailed" by (simp add: run)
  note T = C2_cache_save [OF run]
  from T [THEN conjunct2, THEN conjunct2, THEN mp, OF ok] obtain doc
    where failed: "\<forall>n. FailedAfter 3 = FailedAfter n \<longrightarrow>
                   res = Inl WriteFailed
                   \<and> globalStorage w' (cacheUri storageUri)
                       = Some (take n (stringify (oneDocument oldCache) doc))
                   \<and> (parse (oneDocument oldCache) (take n (stringify (oneDocument oldCache)
                       doc))
                         = None \<longrightarrow>
                        readJson (oneDocument oldCache) (cacheUri storageUri) (globalStorage w')
                          = None
                        \<and> (\<forall>k. cachedEntriesOf homeConfig (str ''UTC'')
                                  (readJson (oneDocument oldCache) (cacheUri storageUri)
                                     (globalStorage w')) k = None))"
    by (elim exE conjE)
  note F = failed [THEN spec, of 3, THEN mp, OF refl, unfolded written cut(1)]
  have f1: "res = Inl WriteFailed" by (rule F [THEN conjunct1])
  have f2: "globalStorage w' (cacheUri storageUri) = Some (str ''cac'')"
    by (rule F [THEN conjunct2, THEN conjunct1])
  have f3: "readJson (oneDocument oldCache) (cacheUri storageUri) (globalStorage w') = None"
    by (rule F [THEN conjunct2, THEN conjunct2, THEN mp, OF unread, THEN conjunct1])
  have f4: "globalStorage w' storageUri = globalStorage cachedWorld storageUri"
    by (rule T [THEN conjunct1, THEN spec, THEN mp, OF cut(3)])
  obtain resK wK where runK: "(refresh utcHost (oneDocument oldCache) twoFiles storageUri
      homeConfig (str ''UTC'')
        (Some bothFiles) False Completed cachedWorld) = (resK, wK)"
    by (cases "(refresh utcHost (oneDocument oldCache) twoFiles storageUri homeConfig (str ''UTC'')
        (Some bothFiles) False Completed cachedWorld)")
  have "fst (refresh utcHost (oneDocument oldCache) twoFiles storageUri homeConfig (str ''UTC'')
        (Some bothFiles) False Completed cachedWorld) \<noteq> Inl OpenFailed" by code_simp
  then have okK: "resK \<noteq> Inl OpenFailed" by (simp add: runK)
  from C2_cache_save [OF runK, THEN conjunct2, THEN conjunct2, THEN mp, OF okK] obtain docK
    where "Completed = Completed \<longrightarrow>
             resK = Inr ()
             \<and> globalStorage wK (cacheUri storageUri) = Some (stringify (oneDocument
                 oldCache) docK)"
    by (elim exE conjE)
  then have k: "resK = Inr ()" "globalStorage wK (cacheUri storageUri) = Some (str ''cache'')"
    by (simp_all add: written)
  obtain resA wA where runA: "(refresh utcHost (oneDocument oldCache) lockedFirst storageUri
      homeConfig (str ''UTC'')
        (Some [looseFile homeRoot, datedPath homeRoot]) True Completed cachedWorld) = (resA, wA)"
    by (cases "(refresh utcHost (oneDocument oldCache) lockedFirst storageUri homeConfig (str
        ''UTC'')
        (Some [looseFile homeRoot, datedPath homeRoot]) True Completed cachedWorld)")
  have "fst (refresh utcHost (oneDocument oldCache) lockedFirst storageUri homeConfig (str ''UTC'')
        (Some [looseFile homeRoot, datedPath homeRoot]) True Completed cachedWorld) = Inl
            OpenFailed" by code_simp
  then have a1: "resA = Inl OpenFailed" by (simp add: runA)
  have a2: "globalStorage wA = globalStorage cachedWorld"
    by (rule C2_cache_save [OF runA, THEN conjunct2, THEN conjunct1, THEN mp, OF a1])
  show ?thesis
    unfolding run runK runA fst_conv snd_conv
    using f1 f2 f3 cut(3) f4 k a1 a2 by (intro conjI)
qed

text \<open>
  C2 as stated fails on a write that fails partway: the cache file that was there, which
  read as a document of version 4, is replaced by the first three characters of the new
  text, which do not read as a document.
\<close>

theorem C2_partial_write_counterexample:
  "globalStorage cachedWorld (cacheUri storageUri) = Some (str ''cache'')
   \<and> map_option version
        (readJson (oneDocument oldCache) (cacheUri storageUri) (globalStorage cachedWorld))
       = Some 4
   \<and> fst (refresh utcHost (oneDocument oldCache) twoFiles storageUri homeConfig (str ''UTC'')
        (Some bothFiles) False (FailedAfter 3) cachedWorld) = Inl WriteFailed
   \<and> globalStorage (snd (refresh utcHost (oneDocument oldCache) twoFiles storageUri
       homeConfig (str ''UTC'')
        (Some bothFiles) False (FailedAfter 3) cachedWorld)) (cacheUri storageUri) = Some (str
            ''cac'')
   \<and> map_option version
        (readJson (oneDocument oldCache) (cacheUri storageUri) (globalStorage (snd (refresh
            utcHost (oneDocument oldCache) twoFiles storageUri homeConfig (str ''UTC'')
        (Some bothFiles) False (FailedAfter 3) cachedWorld))))
       = None"
  by code_simp

end
